theory Spec2Isabelle
  imports Complex_Main "HOL-Library.Multiset"
begin

section \<open>Data model\<close>

text \<open>
  The solver works on a 9x9 grid of cells, each \<open>number | null\<close>, a matrix of candidate
  lists (the domains) and a matrix of booleans (the fixed mask). Arrays are lists, array
  indices are natural numbers, cell values are integers and \<open>null\<close> is \<open>None\<close>.

  The source never checks the shape of its arguments. Every theorem below states the
  shape it needs (nine rows of nine cells, positions inside the grid); on such arguments
  every array read of the modelled functions is inside its array, so no read of the
  model is an unspecified \<open>xs ! i\<close>.
\<close>

record position =
  row :: nat
  col :: nat

type_synonym cell = "int option"
type_synonym grid = "cell list list"
type_synonym domains = "int list list list"

record problem =
  state :: grid
  domain :: domains
  fixed :: "bool list list"

datatype node = Node (problem: problem) (parent: "node option") (lastAssigned: position)

record metrics =
  nodesExpanded :: nat
  childrenGenerated :: nat
  maxDepth :: nat
  iterations :: nat

definition reset :: metrics where
  "reset = \<lparr>nodesExpanded = 0, childrenGenerated = 0, maxDepth = 0, iterations = 0\<rparr>"

text \<open>\<open>getDepth\<close> walks the parent chain of a node.\<close>

fun getDepth :: "node \<Rightarrow> nat" where
  "getDepth (Node p None l) = 0"
| "getDepth (Node p (Some n) l) = Suc (getDepth n)"

definition grid9 :: "'a list list \<Rightarrow> bool" where
  "grid9 g = (length g = 9 \<and> list_all (\<lambda>r. length r = 9) g)"

section \<open>getNextPosition, both copies\<close>

text \<open>
  The test \<open>state[i][j] === null\<close> of the scan. The scan keeps \<open>i\<close> below
  \<open>state.length\<close>; a column index beyond the end of a row reads \<open>undefined\<close>, which
  is not \<open>null\<close>.
\<close>

definition is_null :: "grid \<Rightarrow> nat \<Rightarrow> nat \<Rightarrow> bool" where
  "is_null st i j = (i < length st \<and> j < length (st ! i) \<and> st ! i ! j = None)"

text \<open>The inner loop \<open>for (j = ...; j < sz; j++)\<close> of the scan, from column \<open>j\<close>.\<close>

function scan_cols :: "grid \<Rightarrow> nat \<Rightarrow> nat \<Rightarrow> nat \<Rightarrow> nat option" where
  "scan_cols st sz i j =
     (if j < sz then (if is_null st i j then Some j else scan_cols st sz i (Suc j))
      else None)"
  by pat_completeness auto
termination
  by (relation "measure (\<lambda>(st, sz, i, j). sz - j)") auto

text \<open>
  The outer loop \<open>for (i = startRow; i < sz; i++)\<close>, from row \<open>i\<close>; the inner loop
  starts at \<open>startCol\<close> in row \<open>startRow\<close> and at column 0 in every other row.
\<close>

function scan_rows :: "grid \<Rightarrow> nat \<Rightarrow> nat \<Rightarrow> nat \<Rightarrow> nat \<Rightarrow> position option" where
  "scan_rows st sz startRow startCol i =
     (if i < sz then
        (case scan_cols st sz i (if i = startRow then startCol else 0) of
           Some j \<Rightarrow> Some \<lparr>row = i, col = j\<rparr>
         | None \<Rightarrow> scan_rows st sz startRow startCol (Suc i))
      else None)"
  by pat_completeness auto
termination
  by (relation "measure (\<lambda>(st, sz, startRow, startCol, i). sz - i)") auto

declare scan_cols.simps [simp del] scan_rows.simps [simp del]

text \<open>The copy with the end-of-row adjustment (the first source file).\<close>

definition getNextPosition :: "grid \<Rightarrow> position option \<Rightarrow> position option" where
  "getNextPosition st currentPosition =
     (let sz = length st;
          startRow = (case currentPosition of Some p \<Rightarrow> row p | None \<Rightarrow> 0);
          startCol = (case currentPosition of Some p \<Rightarrow> col p + 1 | None \<Rightarrow> 0)
      in if startCol \<ge> sz
         then scan_rows st sz (startRow + 1) 0 (startRow + 1)
         else scan_rows st sz startRow startCol startRow)"

text \<open>The copy without the adjustment (the second source file).\<close>

definition getNextPosition_unadjusted :: "grid \<Rightarrow> position option \<Rightarrow> position option" where
  "getNextPosition_unadjusted st currentPosition =
     (let sz = length st;
          startRow = (case currentPosition of Some p \<Rightarrow> row p | None \<Rightarrow> 0);
          startCol = (case currentPosition of Some p \<Rightarrow> col p + 1 | None \<Rightarrow> 0)
      in scan_rows st sz startRow startCol startRow)"

section \<open>Initialisation\<close>

text \<open>Writing one cell of a matrix: \<open>m[i][j] = x\<close>.\<close>

definition upd2 :: "'a list list \<Rightarrow> nat \<Rightarrow> nat \<Rightarrow> 'a \<Rightarrow> 'a list list" where
  "upd2 m i j x = m[i := (m ! i)[j := x]]"

text \<open>
  \<open>inititationHelper\<close> first builds a domain matrix of empty lists and a mask of
  \<open>false\<close>, with \<open>state.length\<close> rows of \<open>state[0].length\<close> cells, then visits every
  cell of the grid: a filled cell is fixed and gets the empty domain, an empty cell gets
  the domain 1..9.
\<close>

definition initCell :: "grid \<Rightarrow> nat \<Rightarrow> nat \<Rightarrow> domains \<times> bool list list \<Rightarrow> domains \<times> bool list list" where
  "initCell st i j df =
     (case df of (dm, fx) \<Rightarrow>
        if st ! i ! j \<noteq> None then (upd2 dm i j [], upd2 fx i j True)
        else (upd2 dm i j [1, 2, 3, 4, 5, 6, 7, 8, 9], fx))"

definition inititationHelper :: "grid \<Rightarrow> domains \<times> bool list list" where
  "inititationHelper st =
     (let dm0 = replicate (length st) (replicate (length (st ! 0)) []);
          fx0 = replicate (length st) (replicate (length (st ! 0)) False)
      in fold (\<lambda>i df. fold (\<lambda>j df. initCell st i j df) [0..<length (st ! i)] df)
           [0..<length st] (dm0, fx0))"

definition initiate :: "grid \<Rightarrow> problem" where
  "initiate st =
     (case inititationHelper st of (dm, fx) \<Rightarrow> \<lparr>state = st, domain = dm, fixed = fx\<rparr>)"

section \<open>The consistency checker\<close>

text \<open>
  The \<open>Map\<close> from values to the positions holding them is an association list in
  insertion order. \<open>hashmap_push\<close> is the body of the populating loop for one filled
  cell: a new key is added with an empty list, then the position is appended to the
  key's list.
\<close>

type_synonym hashmap = "(int \<times> position list) list"

definition hashmap_push :: "hashmap \<Rightarrow> int \<Rightarrow> position \<Rightarrow> hashmap" where
  "hashmap_push hm v p =
     (if map_of hm v = None then hm @ [(v, [p])]
      else map (\<lambda>(k, ps). if k = v then (k, ps @ [p]) else (k, ps)) hm)"

definition populate_cell :: "grid \<Rightarrow> nat \<Rightarrow> nat \<Rightarrow> hashmap \<Rightarrow> hashmap" where
  "populate_cell st i j hm =
     (case st ! i ! j of None \<Rightarrow> hm | Some v \<Rightarrow> hashmap_push hm v \<lparr>row = i, col = j\<rparr>)"

definition populate :: "grid \<Rightarrow> hashmap" where
  "populate st =
     fold (\<lambda>i hm. fold (populate_cell st i) [0..<length (st ! i)] hm) [0..<length st] []"

text \<open>
  The inner loop over the positions of one value, with the three seen-sets \<open>rows\<close>,
  \<open>cols\<close> and \<open>subgrids\<close>; \<open>False\<close> is the early \<open>return false\<close>. The source keys a
  subgrid by the string of \<open>Math.floor(row / 3)\<close>, a dash and \<open>Math.floor(col / 3)\<close>;
  two such strings are equal exactly when both numbers are, so the key is the pair.
\<close>

fun check_positions :: "nat list \<Rightarrow> nat list \<Rightarrow> (nat \<times> nat) list \<Rightarrow> position list \<Rightarrow> bool" where
  "check_positions rows cols subgrids [] = True"
| "check_positions rows cols subgrids (p # ps) =
     (if row p \<in> set rows then False
      else if col p \<in> set cols then False
      else if (row p div 3, col p div 3) \<in> set subgrids then False
      else check_positions (rows @ [row p]) (cols @ [col p])
             (subgrids @ [(row p div 3, col p div 3)]) ps)"

text \<open>The outer loop over the entries of the map.\<close>

fun check_entries :: "hashmap \<Rightarrow> bool" where
  "check_entries [] = True"
| "check_entries ((v, ps) # es) =
     (if check_positions [] [] [] ps then check_entries es else False)"

definition consistent :: "problem \<Rightarrow> bool" where
  "consistent p = check_entries (populate (state p))"

text \<open>\<open>isgoal\<close>: no cell is \<open>null\<close>, and the grid is consistent.\<close>

definition isgoal :: "problem \<Rightarrow> bool" where
  "isgoal p =
     (if list_ex (\<lambda>i. list_ex (\<lambda>j. state p ! i ! j = None) [0..<length (state p ! i)])
           [0..<length (state p)]
      then False else consistent p)"

section \<open>The domain propagator\<close>

text \<open>
  The step all three loops of \<open>updateDomain\<close> share: if the domain of cell \<open>(i, j)\<close>
  includes the value, it is replaced by its filter.
\<close>

definition remove_at :: "domains \<Rightarrow> nat \<Rightarrow> nat \<Rightarrow> int \<Rightarrow> domains" where
  "remove_at nd i j v =
     (if v \<in> set (nd ! i ! j) then upd2 nd i j (filter (\<lambda>x. x \<noteq> v) (nd ! i ! j)) else nd)"

definition updateDomain :: "domains \<Rightarrow> position \<Rightarrow> int \<Rightarrow> domains" where
  "updateDomain dm pos v =
     (let newDomain = map (\<lambda>r. map (\<lambda>cell. cell) r) dm;
          r = row pos;
          c = col pos;
          nd1 = fold (\<lambda>j nd. remove_at nd r j v) [0..<length (newDomain ! r)] newDomain;
          nd2 = fold (\<lambda>i nd. remove_at nd i c v) [0..<length nd1] nd1;
          subgridRowStart = (r div 3) * 3;
          subgridColStart = (c div 3) * 3;
          nd3 = fold (\<lambda>i nd. fold (\<lambda>j nd. remove_at nd i j v)
                                  [subgridColStart..<subgridColStart + 3] nd)
                  [subgridRowStart..<subgridRowStart + 3] nd2
      in upd2 nd3 r c [])"

section \<open>The domain propagator on a store of arrays\<close>

text \<open>
  The definition above takes a matrix as a value, and a value cannot be changed. This
  section models the same source text on arrays that have an identity, so that what a call
  does to the arrays it is given can be stated.

  A store holds the arrays a domain matrix is made of, one component for each type: the cell
  arrays (\<open>number[]\<close>), the row arrays (\<open>number[][]\<close>, a row holds the addresses of its
  cells, \<open>None\<close> where the array has no element) and the matrix arrays
  (\<open>number[][][]\<close>, a matrix holds the addresses of its rows). An address is an index into
  its component; a new array is appended to it.
\<close>

record store =
  cells :: "int list list"
  rows :: "nat option list list"
  mats :: "nat list list"

definition new_cell :: "int list \<Rightarrow> store \<Rightarrow> nat \<times> store" where
  "new_cell xs h = (length (cells h), h\<lparr>cells := cells h @ [xs]\<rparr>)"

definition new_row :: "nat option list \<Rightarrow> store \<Rightarrow> nat \<times> store" where
  "new_row xs h = (length (rows h), h\<lparr>rows := rows h @ [xs]\<rparr>)"

definition new_mat :: "nat list \<Rightarrow> store \<Rightarrow> nat \<times> store" where
  "new_mat xs h = (length (mats h), h\<lparr>mats := mats h @ [xs]\<rparr>)"

text \<open>
  Reading \<open>xs[i]\<close> gives \<open>undefined\<close> (\<open>None\<close>) outside the array; the assignment
  \<open>xs[i] = x\<close> outside the array extends it.
\<close>

definition element :: "'a option list \<Rightarrow> nat \<Rightarrow> 'a option" where
  "element xs i = (if i < length xs then xs ! i else None)"

definition put :: "'a option list \<Rightarrow> nat \<Rightarrow> 'a \<Rightarrow> 'a option list" where
  "put xs i x =
     (if i < length xs then xs[i := Some x] else xs @ replicate (i - length xs) None @ [Some x])"

definition assign :: "nat \<Rightarrow> nat \<Rightarrow> nat \<Rightarrow> store \<Rightarrow> store" where
  "assign ra j a h = h\<lparr>rows := (rows h)[ra := put (rows h ! ra) j a]\<rparr>"

text \<open>
  The deep copy \<open>domain.map(row => row.map(cell => [...cell]))\<close>: a new cell array for
  every cell, a new row array for every row, a new matrix array. \<open>map\<close> leaves out the
  indices where the array has no element.
\<close>

fun copy_cells :: "nat option list \<Rightarrow> store \<Rightarrow> nat option list \<times> store" where
  "copy_cells [] h = ([], h)"
| "copy_cells (None # xs) h = (case copy_cells xs h of (as, h1) \<Rightarrow> (None # as, h1))"
| "copy_cells (Some c # xs) h =
     (case new_cell (cells h ! c) h of
        (a, h1) \<Rightarrow> (case copy_cells xs h1 of (as, h2) \<Rightarrow> (Some a # as, h2)))"

fun copy_rows :: "nat list \<Rightarrow> store \<Rightarrow> nat list \<times> store" where
  "copy_rows [] h = ([], h)"
| "copy_rows (r # rs) h =
     (case copy_cells (rows h ! r) h of
        (cs, h1) \<Rightarrow>
          (case new_row cs h1 of
             (a, h2) \<Rightarrow> (case copy_rows rs h2 of (as, h3) \<Rightarrow> (a # as, h3))))"

definition copy_matrix :: "nat \<Rightarrow> store \<Rightarrow> nat \<times> store" where
  "copy_matrix d h = (case copy_rows (mats h ! d) h of (rs, h1) \<Rightarrow> new_mat rs h1)"

text \<open>
  The body of the three loops, on the cell \<open>(i, j)\<close> of the matrix at \<open>nd\<close>:
  \<open>if (newDomain[i][j].includes(value)) newDomain[i][j] = newDomain[i][j].filter(...)\<close>.
  \<open>filter\<close> makes a new cell array, and the assignment writes its address into the row
  array. The boolean is \<open>False\<close> when the body throws a \<open>TypeError\<close>: \<open>newDomain[i]\<close> or
  \<open>newDomain[i][j]\<close> is \<open>undefined\<close>.
\<close>

definition strike :: "nat \<Rightarrow> int \<Rightarrow> nat \<Rightarrow> nat \<Rightarrow> store \<Rightarrow> bool \<times> store" where
  "strike nd v i j h =
     (if i < length (mats h ! nd) then
        (let ra = mats h ! nd ! i
         in case element (rows h ! ra) j of
              None \<Rightarrow> (False, h)
            | Some ca \<Rightarrow>
                if v \<in> set (cells h ! ca)
                then (case new_cell (filter (\<lambda>x. x \<noteq> v) (cells h ! ca)) h of
                        (a, h1) \<Rightarrow> (True, assign ra j a h1))
                else (True, h))
      else (False, h))"

fun strike_all :: "nat \<Rightarrow> int \<Rightarrow> (nat \<times> nat) list \<Rightarrow> store \<Rightarrow> bool \<times> store" where
  "strike_all nd v [] h = (True, h)"
| "strike_all nd v ((i, j) # cs) h =
     (case strike nd v i j h of
        (True, h1) \<Rightarrow> strike_all nd v cs h1
      | (False, h1) \<Rightarrow> (False, h1))"

text \<open>
  \<open>updateDomain\<close> on the store: the address of the new matrix, or \<open>None\<close> when the call
  throws, and the store the call leaves. Reading \<open>newDomain[row].length\<close> throws when
  \<open>newDomain[row]\<close> is \<open>undefined\<close>. The loop conditions read
  \<open>newDomain[row].length\<close> and \<open>newDomain.length\<close> at every step; these are the lengths
  at the start of the loop, since an assignment of the loop body replaces an element that
  its array has, and the matrix array is never assigned to. For the same reason
  \<open>newDomain[row]\<close> in the last assignment is the row array \<open>ra\<close> read before the loops.
\<close>

definition updateDomain_store :: "nat \<Rightarrow> position \<Rightarrow> int \<Rightarrow> store \<Rightarrow> nat option \<times> store" where
  "updateDomain_store d pos v h =
     (case copy_matrix d h of
        (nd, h0) \<Rightarrow>
          (let r = row pos; c = col pos
           in if r < length (mats h0 ! nd) then
                (let ra = mats h0 ! nd ! r
                 in case strike_all nd v (map (\<lambda>j. (r, j)) [0..<length (rows h0 ! ra)]) h0 of
                      (False, h1) \<Rightarrow> (None, h1)
                    | (True, h1) \<Rightarrow>
                        (case strike_all nd v (map (\<lambda>i. (i, c)) [0..<length (mats h1 ! nd)]) h1 of
                           (False, h2) \<Rightarrow> (None, h2)
                         | (True, h2) \<Rightarrow>
                             (case strike_all nd v
                                     (List.product [(r div 3) * 3..<(r div 3) * 3 + 3]
                                        [(c div 3) * 3..<(c div 3) * 3 + 3]) h2 of
                                (False, h3) \<Rightarrow> (None, h3)
                              | (True, h3) \<Rightarrow>
                                  (case new_cell [] h3 of
                                     (a, h4) \<Rightarrow> (Some nd, assign ra c a h4)))))
              else (None, h0)))"

section \<open>Expanding a node\<close>

text \<open>
  A child's problem is \<open>{...parent.problem, domain: domain, state: newState}\<close>, its
  parent is the expanded node.
\<close>

definition mkChild :: "node \<Rightarrow> grid \<Rightarrow> domains \<Rightarrow> position \<Rightarrow> node" where
  "mkChild par newState dm la =
     Node ((problem par)\<lparr>domain := dm, state := newState\<rparr>) (Some par) la"

text \<open>
  Plain expansion: one child for every value of the domain of the cell \<open>lastAssigned\<close>.
  The child's \<open>lastAssigned\<close> is the next empty cell of the parent's grid, or the
  parent's own when there is none. \<open>plain_child\<close> is the body of the loop over the
  actions. The metrics are passed in and returned.
\<close>

definition plain_child :: "node \<Rightarrow> position option \<Rightarrow> int \<Rightarrow> node" where
  "plain_child par nextPosition value =
     (let r = row (lastAssigned par);
          c = col (lastAssigned par);
          newState = upd2 (state (problem par)) r c (Some value);
          dm = updateDomain (domain (problem par)) (lastAssigned par) value
      in case nextPosition of
           None \<Rightarrow> mkChild par newState dm (lastAssigned par)
         | Some np \<Rightarrow> mkChild par newState dm np)"

definition getChildren :: "node \<Rightarrow> metrics \<Rightarrow> node list \<times> metrics" where
  "getChildren par m =
     (let r = row (lastAssigned par);
          c = col (lastAssigned par);
          actions = domain (problem par) ! r ! c;
          nextPosition = getNextPosition (state (problem par)) (Some (lastAssigned par));
          currentDepth = getDepth par;
          m1 = m\<lparr>maxDepth := max (maxDepth m) (currentDepth + 1)\<rparr>;
          children = map (plain_child par nextPosition) actions
      in (children, m1\<lparr>childrenGenerated := childrenGenerated m1 + length children\<rparr>))"

text \<open>
  The forward check: some cell that is \<open>null\<close> in the new grid has an empty domain.
  The two loops run over the rows and cells of the domain matrix.
\<close>

definition hasEmptyDomain :: "grid \<Rightarrow> domains \<Rightarrow> bool" where
  "hasEmptyDomain newState dm =
     list_ex (\<lambda>r. list_ex (\<lambda>c. newState ! r ! c = None \<and> length (dm ! r ! c) = 0)
                     [0..<length (dm ! r)])
       [0..<length dm]"

text \<open>The body of the loop over the actions: the children the value adds, none or one.\<close>

definition forwarding_child :: "node \<Rightarrow> position option \<Rightarrow> int \<Rightarrow> node list" where
  "forwarding_child par nextPosition value =
     (let r = row (lastAssigned par);
          c = col (lastAssigned par);
          newState = upd2 (state (problem par)) r c (Some value);
          dm = updateDomain (domain (problem par)) (lastAssigned par) value
      in if \<not> hasEmptyDomain newState dm then
           (case nextPosition of
              None \<Rightarrow> [mkChild par newState dm (lastAssigned par)]
            | Some np \<Rightarrow> [mkChild par newState dm np])
         else [])"

definition getChildren_forwarding :: "node \<Rightarrow> metrics \<Rightarrow> node list \<times> metrics" where
  "getChildren_forwarding par m =
     (let r = row (lastAssigned par);
          c = col (lastAssigned par);
          actions = domain (problem par) ! r ! c;
          nextPosition = getNextPosition (state (problem par)) (Some (lastAssigned par));
          currentDepth = getDepth par;
          m1 = m\<lparr>maxDepth := max (maxDepth m) (currentDepth + 1)\<rparr>;
          children = concat (map (forwarding_child par nextPosition) actions)
      in (children, m1\<lparr>childrenGenerated := childrenGenerated m1 + length children\<rparr>))"

section \<open>The MRV and LCV heuristics\<close>

text \<open>
  \<open>getMRVPosition\<close> keeps the smallest domain size seen so far (\<open>None\<close> is the
  initial \<open>Infinity\<close>) and the cell that has it.
\<close>

definition mrv_step :: "problem \<Rightarrow> nat \<Rightarrow> nat \<Rightarrow> nat option \<times> position option \<Rightarrow> nat option \<times> position option" where
  "mrv_step p i j s =
     (case s of (minDomainSize, bestPos) \<Rightarrow>
        if state p ! i ! j = None then
          (let domainSize = length (domain p ! i ! j)
           in if (case minDomainSize of None \<Rightarrow> True | Some n \<Rightarrow> domainSize < n) \<and> domainSize > 0
              then (Some domainSize, Some \<lparr>row = i, col = j\<rparr>)
              else s)
        else s)"

definition mrv_row :: "problem \<Rightarrow> nat \<Rightarrow> nat option \<times> position option \<Rightarrow> nat option \<times> position option" where
  "mrv_row p i s = fold (mrv_step p i) [0..<9] s"

definition getMRVPosition :: "problem \<Rightarrow> position option" where
  "getMRVPosition p = snd (fold (mrv_row p) [0..<9] (None, None))"

text \<open>
  The count \<open>getLCV\<close> gives a value: one for every cell of the row, of the column and of
  the block of the position that is \<open>null\<close> and whose domain includes the value.
\<close>

definition lcv_hit :: "problem \<Rightarrow> int \<Rightarrow> nat \<Rightarrow> nat \<Rightarrow> nat \<Rightarrow> nat" where
  "lcv_hit p value i j n =
     (if state p ! i ! j = None \<and> value \<in> set (domain p ! i ! j) then n + 1 else n)"

definition lcv_count :: "problem \<Rightarrow> position \<Rightarrow> int \<Rightarrow> nat" where
  "lcv_count p pos value =
     (let r = row pos;
          c = col pos;
          count1 = fold (\<lambda>i n. lcv_hit p value i c (lcv_hit p value r i n)) [0..<9] 0;
          subgridRowStart = (r div 3) * 3;
          subgridColStart = (c div 3) * 3
      in fold (\<lambda>i n. fold (\<lambda>j n. lcv_hit p value i j n)
                         [subgridColStart..<subgridColStart + 3] n)
           [subgridRowStart..<subgridRowStart + 3] count1)"

text \<open>
  The values sorted by their counts. \<open>Array.prototype.sort\<close> is stable (ECMAScript
  2019), and so is \<open>sort_key\<close>.
\<close>

definition lcv_entry :: "problem \<Rightarrow> position \<Rightarrow> int \<Rightarrow> int \<times> nat" where
  "lcv_entry p pos value = (value, lcv_count p pos value)"

definition getLCV :: "problem \<Rightarrow> position \<Rightarrow> int list" where
  "getLCV p pos =
     (let values = domain p ! row pos ! col pos;
          constraints = map (lcv_entry p pos) values
      in map fst (sort_key snd constraints))"

definition mrv_lcv_child :: "node \<Rightarrow> position \<Rightarrow> int \<Rightarrow> node list" where
  "mrv_lcv_child par nextPosition value =
     (let newState = upd2 (state (problem par)) (row nextPosition) (col nextPosition) (Some value);
          dm = updateDomain (domain (problem par)) nextPosition value
      in if \<not> hasEmptyDomain newState dm then
           (let updatedProblem = (problem par)\<lparr>domain := dm, state := newState\<rparr>;
                nextMRVPosition = getMRVPosition updatedProblem
            in [Node updatedProblem (Some par)
                  (case nextMRVPosition of Some q \<Rightarrow> q | None \<Rightarrow> nextPosition)])
         else [])"

definition getChildren_MRV_LCV :: "node \<Rightarrow> metrics \<Rightarrow> node list \<times> metrics" where
  "getChildren_MRV_LCV par m =
     (case getMRVPosition (problem par) of
        None \<Rightarrow> ([], m)
      | Some nextPosition \<Rightarrow>
          (let currentDepth = getDepth par;
               m1 = m\<lparr>maxDepth := max (maxDepth m) (currentDepth + 1)\<rparr>;
               actions = getLCV (problem par) nextPosition;
               children = concat (map (mrv_lcv_child par nextPosition) actions)
           in (children, m1\<lparr>childrenGenerated := childrenGenerated m1 + length children\<rparr>)))"

section \<open>The backtracking searches\<close>

text \<open>
  The three searches run the same loop over a stack of nodes, the fringe, and differ in
  the expansion only, which is the parameter \<open>expand\<close> here. \<open>fringe.pop()\<close> takes the
  last node. The loop has no bound in the source, so a run that does not end is \<open>None\<close>;
  a run that ends gives the node found (or \<open>null\<close>) and the metrics.
\<close>

partial_function (option) search_loop ::
  "(node \<Rightarrow> metrics \<Rightarrow> node list \<times> metrics) \<Rightarrow> node list \<Rightarrow> metrics \<Rightarrow> (node option \<times> metrics) option" where
  "search_loop expand fringe m =
     (if length fringe > 0 then
        (let current = last fringe;
             rest = butlast fringe;
             m1 = m\<lparr>nodesExpanded := nodesExpanded m + 1\<rparr>
         in if consistent (problem current) then
              (if isgoal (problem current) then Some (Some current, m1)
               else (case expand current m1 of
                       (children, m2) \<Rightarrow> search_loop expand (rest @ children) m2))
            else search_loop expand rest m1)
      else Some (None, m))"

declare search_loop.simps [code]

definition backtack :: "grid \<Rightarrow> (node option \<times> metrics) option" where
  "backtack st =
     (let m = reset;
          p = initiate st
      in case getNextPosition st None of
           None \<Rightarrow> Some (Some (Node p None \<lparr>row = 0, col = 0\<rparr>), m)
         | Some firstEmpty \<Rightarrow> search_loop getChildren [Node p None firstEmpty] m)"

definition backtack_forward :: "grid \<Rightarrow> (node option \<times> metrics) option" where
  "backtack_forward st =
     (let m = reset;
          p = initiate st
      in case getNextPosition st None of
           None \<Rightarrow> Some (Some (Node p None \<lparr>row = 0, col = 0\<rparr>), m)
         | Some firstEmpty \<Rightarrow> search_loop getChildren_forwarding [Node p None firstEmpty] m)"

definition backtrack_MRV_LCV :: "grid \<Rightarrow> (node option \<times> metrics) option" where
  "backtrack_MRV_LCV st =
     (let m = reset;
          p = initiate st
      in case getMRVPosition p of
           None \<Rightarrow> Some (Some (Node p None \<lparr>row = 0, col = 0\<rparr>), m)
         | Some firstMRV \<Rightarrow> search_loop getChildren_MRV_LCV [Node p None firstMRV] m)"

section \<open>The conflict count of the annealing search\<close>

text \<open>
  The scan of one line (a row or a column) with its \<open>seen\<close> set: the counter goes up
  at every cell whose value is already in the set.
\<close>

fun count_seen :: "'a set \<Rightarrow> 'a list \<Rightarrow> nat \<Rightarrow> nat" where
  "count_seen seen [] conflicts = conflicts"
| "count_seen seen (x # xs) conflicts =
     count_seen (insert x seen) xs (if x \<in> seen then conflicts + 1 else conflicts)"

definition rowOf :: "'a list list \<Rightarrow> nat \<Rightarrow> 'a list" where
  "rowOf st i = map (\<lambda>j. st ! i ! j) [0..<9]"

definition colOf :: "'a list list \<Rightarrow> nat \<Rightarrow> 'a list" where
  "colOf st j = map (\<lambda>i. st ! i ! j) [0..<9]"

definition count_row :: "'a list list \<Rightarrow> nat \<Rightarrow> nat \<Rightarrow> nat" where
  "count_row st i conflicts = count_seen {} (rowOf st i) conflicts"

definition count_col :: "'a list list \<Rightarrow> nat \<Rightarrow> nat \<Rightarrow> nat" where
  "count_col st j conflicts = count_seen {} (colOf st j) conflicts"

definition countConflicts :: "'a list list \<Rightarrow> nat" where
  "countConflicts st =
     (let conflicts = fold (count_row st) [0..<9] 0
      in fold (count_col st) [0..<9] conflicts)"

section \<open>Simulated annealing\<close>

text \<open>
  \<open>Math.random()\<close> is a sequence of numbers fixed in advance: \<open>rnd k\<close> is the value
  of call number \<open>k\<close> of a run, and the model counts the calls made so far. The source
  draws doubles in the interval from 0 (included) to 1 (excluded); the model computes
  with them as real numbers.
\<close>

type_synonym rng = "nat \<Rightarrow> real"

text \<open>The cells of a block in the order of the loops \<open>for i < 3, for j < 3\<close>.\<close>

definition blockCells :: "nat \<Rightarrow> nat \<Rightarrow> (nat \<times> nat) list" where
  "blockCells blockRow blockCol =
     concat (map (\<lambda>i. map (\<lambda>j. (blockRow * 3 + i, blockCol * 3 + j)) [0..<3]) [0..<3])"

definition present_values :: "grid \<Rightarrow> (nat \<times> nat) list \<Rightarrow> int list" where
  "present_values newState cs =
     concat (map (\<lambda>(r, c). case newState ! r ! c of None \<Rightarrow> [] | Some v \<Rightarrow> [v]) cs)"

text \<open>
  The shuffle \<open>for (i = missing.length - 1; i > 0; i--)\<close>, from index \<open>i\<close> down: it
  draws \<open>j\<close> and exchanges the entries \<open>i\<close> and \<open>j\<close>.
\<close>

fun shuffle :: "rng \<Rightarrow> nat \<Rightarrow> int list \<Rightarrow> nat \<Rightarrow> int list \<times> nat" where
  "shuffle rnd k missing 0 = (missing, k)"
| "shuffle rnd k missing (Suc i) =
     (let j = nat \<lfloor>rnd k * real (Suc i + 1)\<rfloor>;
          swapped = (missing[Suc i := missing ! j])[j := missing ! Suc i]
      in shuffle rnd (k + 1) swapped i)"

text \<open>The loop that writes \<open>missing[idx++]\<close> into the empty cells of a block.\<close>

fun fill_block :: "grid \<Rightarrow> int list \<Rightarrow> nat \<Rightarrow> (nat \<times> nat) list \<Rightarrow> grid" where
  "fill_block newState missing idx [] = newState"
| "fill_block newState missing idx ((r, c) # cs) =
     (if newState ! r ! c = None
      then fill_block (upd2 newState r c (Some (missing ! idx))) missing (idx + 1) cs
      else fill_block newState missing idx cs)"

text \<open>The body of the loops over the nine blocks; the state is the grid and the call count.\<close>

definition assign_block :: "rng \<Rightarrow> nat \<times> nat \<Rightarrow> grid \<times> nat \<Rightarrow> grid \<times> nat" where
  "assign_block rnd b s =
     (case b of (blockRow, blockCol) \<Rightarrow> case s of (newState, k) \<Rightarrow>
        (let present = present_values newState (blockCells blockRow blockCol);
             missing = filter (\<lambda>n. n \<notin> set present) [1, 2, 3, 4, 5, 6, 7, 8, 9]
         in case shuffle rnd k missing (length missing - 1) of
              (shuffled, k') \<Rightarrow>
                (fill_block newState shuffled 0 (blockCells blockRow blockCol), k')))"

definition randomCompleteAssignment :: "rng \<Rightarrow> grid \<Rightarrow> grid \<times> nat" where
  "randomCompleteAssignment rnd st =
     fold (assign_block rnd) (List.product [0..<3] [0..<3]) (st, 0)"

text \<open>
  The state of the annealing loop. \<open>fewSkips\<close>, \<open>sameSkips\<close> and \<open>moves\<close> are not
  variables of the source: they count the loop steps that ended at the first
  \<open>continue\<close> (fewer than two free cells in the block), at the second (the same cell
  drawn twice), and the steps that built the swapped grid.
\<close>

record anneal =
  current :: grid
  currentConflicts :: nat
  temperature :: real
  drawn :: nat
  met :: metrics
  fewSkips :: nat
  sameSkips :: nat
  moves :: nat

definition freeCells :: "bool list list \<Rightarrow> nat \<Rightarrow> nat \<Rightarrow> (nat \<times> nat) list" where
  "freeCells fx blockRow blockCol =
     filter (\<lambda>(r, c). \<not> fx ! r ! c) (blockCells blockRow blockCol)"

definition swapCells :: "grid \<Rightarrow> nat \<times> nat \<Rightarrow> nat \<times> nat \<Rightarrow> grid" where
  "swapCells cur a b =
     upd2 (upd2 cur (fst a) (snd a) (cur ! fst b ! snd b)) (fst b) (snd b) (cur ! fst a ! snd a)"

text \<open>
  \<open>Math.exp\<close> on double-precision numbers underflows: where the exponential is below
  \<open>2^-1075\<close>, half of the least positive double, the result is 0. The model keeps the
  underflow and nothing else of the floating-point arithmetic: the temperature, the
  quotient \<open>-delta / T\<close> and the exponential are real numbers, not rounded. The
  theorems about the annealing search hold whatever the acceptance test answers.
\<close>

definition Math_exp :: "real \<Rightarrow> real" where
  "Math_exp x = (if exp x * 2 ^ 1075 < 1 then 0 else exp x)"

text \<open>
  The acceptance test \<open>delta < 0 || Math.random() < Math.exp(-delta / T)\<close>, for the
  number \<open>r\<close> that \<open>Math.random()\<close> returns when it is called.
\<close>

definition metropolis :: "int \<Rightarrow> real \<Rightarrow> real \<Rightarrow> bool" where
  "metropolis delta t r = (delta < 0 \<or> r < Math_exp (- real_of_int delta / t))"

text \<open>
  The end of the body of the annealing loop, after both \<open>continue\<close> statements: the
  swap of the cells \<open>a\<close> and \<open>b\<close>, the acceptance test and the cooling. \<open>s\<close> is the
  state at the start of the step, \<open>s1\<close> the state with the iteration counted. The boolean
  of the result says whether the body left the function through its \<open>return current\<close>.
  The second \<open>Math.random()\<close> of the acceptance test is drawn only when \<open>delta\<close> is not
  negative.
\<close>

definition sa_move :: "rng \<Rightarrow> anneal \<Rightarrow> anneal \<Rightarrow> nat \<times> nat \<Rightarrow> nat \<times> nat \<Rightarrow> anneal \<times> bool" where
  "sa_move rnd s s1 a b =
     (let nxt = swapCells (current s) a b;
          nextConflicts = countConflicts nxt;
          delta = int nextConflicts - int (currentConflicts s);
          accepted = metropolis delta (temperature s) (rnd (drawn s + 4));
          t1 = temperature s * (999 / 1000);
          s2 = s1\<lparr>current := (if accepted then nxt else current s),
                  currentConflicts := (if accepted then nextConflicts else currentConflicts s),
                  temperature := (if t1 < 1 / 10000 then 1 / 10000 else t1),
                  drawn := (if delta < 0 then drawn s + 4 else drawn s + 5),
                  moves := moves s + 1\<rparr>
      in (s2, currentConflicts s2 = 0))"

text \<open>
  The body of the annealing loop: the iteration is counted, a block and its free cells are
  drawn, and the step ends at a \<open>continue\<close> or goes on to the swap.
\<close>

definition sa_step :: "rng \<Rightarrow> bool list list \<Rightarrow> anneal \<Rightarrow> anneal \<times> bool" where
  "sa_step rnd fx s =
     (let s1 = s\<lparr>met := (met s)\<lparr>iterations := iterations (met s) + 1\<rparr>\<rparr>;
          blockRow = nat \<lfloor>rnd (drawn s) * 3\<rfloor>;
          blockCol = nat \<lfloor>rnd (drawn s + 1) * 3\<rfloor>;
          cs = freeCells fx blockRow blockCol
      in if length cs < 2
         then (s1\<lparr>drawn := drawn s + 2, fewSkips := fewSkips s + 1\<rparr>, False)
         else
           (let a = cs ! nat \<lfloor>rnd (drawn s + 2) * real (length cs)\<rfloor>;
                b = cs ! nat \<lfloor>rnd (drawn s + 3) * real (length cs)\<rfloor>
            in if a = b
               then (s1\<lparr>drawn := drawn s + 4, sameSkips := sameSkips s + 1\<rparr>, False)
               else sa_move rnd s s1 a b))"

text \<open>
  The loop \<open>for (step = 0; step < maxSteps && currentConflicts > 0; step++)\<close> and the
  \<open>return\<close> after it; the third argument is the number of steps left,
  \<open>maxSteps - step\<close>.
\<close>

fun sa_loop :: "rng \<Rightarrow> bool list list \<Rightarrow> nat \<Rightarrow> anneal \<Rightarrow> grid option \<times> anneal" where
  "sa_loop rnd fx 0 s = (if currentConflicts s = 0 then Some (current s) else None, s)"
| "sa_loop rnd fx (Suc n) s =
     (if currentConflicts s > 0 then
        (case sa_step rnd fx s of
           (s', True) \<Rightarrow> (Some (current s'), s')
         | (s', False) \<Rightarrow> sa_loop rnd fx n s')
      else (Some (current s), s))"

definition simulatedAnnealing :: "rng \<Rightarrow> grid \<Rightarrow> bool list list \<Rightarrow> nat \<Rightarrow> grid option \<times> anneal" where
  "simulatedAnnealing rnd st fx maxSteps =
     (case randomCompleteAssignment rnd st of
        (cur, k) \<Rightarrow>
          (let s0 = \<lparr>current = cur, currentConflicts = countConflicts cur, temperature = 1,
                     drawn = k, met = reset, fewSkips = 0, sameSkips = 0, moves = 0\<rparr>
           in if currentConflicts s0 = 0 then (Some (current s0), s0)
              else sa_loop rnd fx maxSteps s0))"

section \<open>Notions used in the statements and proofs\<close>

definition remove_cells :: "domains \<Rightarrow> (nat \<times> nat) list \<Rightarrow> int \<Rightarrow> domains" where
  "remove_cells nd cs v = fold (\<lambda>(i, j) nd. remove_at nd i j v) cs nd"

text \<open>The cells \<open>updateDomain\<close> filters: the row, the column and the block of the position.\<close>

definition peersOrSelf :: "nat \<Rightarrow> nat \<Rightarrow> nat \<Rightarrow> nat \<Rightarrow> bool" where
  "peersOrSelf r c k l = (k = r \<or> l = c \<or> (k div 3 = r div 3 \<and> l div 3 = c div 3))"

text \<open>The filled cells of a grid in scan order, each with its value.\<close>

definition cell_entry :: "grid \<Rightarrow> nat \<Rightarrow> nat \<Rightarrow> (position \<times> int) list" where
  "cell_entry st i j = (case st ! i ! j of None \<Rightarrow> [] | Some v \<Rightarrow> [(\<lparr>row = i, col = j\<rparr>, v)])"

definition filled_row :: "grid \<Rightarrow> nat \<Rightarrow> (position \<times> int) list" where
  "filled_row st i = concat (map (cell_entry st i) [0..<length (st ! i)])"

definition filled :: "grid \<Rightarrow> (position \<times> int) list" where
  "filled st = concat (map (filled_row st) [0..<length st])"

definition push_all :: "hashmap \<Rightarrow> (position \<times> int) list \<Rightarrow> hashmap" where
  "push_all hm xs = fold (\<lambda>(p, v) hm. hashmap_push hm v p) xs hm"

text \<open>The positions a list of filled cells gives a value, in order.\<close>

definition positions_of :: "(position \<times> int) list \<Rightarrow> int \<Rightarrow> position list" where
  "positions_of xs v = map fst (filter (\<lambda>pv. snd pv = v) xs)"

text \<open>What the checker computes, group by group.\<close>

definition groups_distinct :: "position list \<Rightarrow> bool" where
  "groups_distinct ps =
     (distinct (map row ps) \<and> distinct (map col ps) \<and>
      distinct (map (\<lambda>q. (row q div 3, col q div 3)) ps))"

text \<open>The number of unordered pairs of distinct cells of a line that hold equal values.\<close>

fun equal_pairs :: "'a list \<Rightarrow> nat" where
  "equal_pairs [] = 0"
| "equal_pairs (x # xs) = length (filter (\<lambda>y. y = x) xs) + equal_pairs xs"

definition conflict_pairs :: "'a list list \<Rightarrow> nat" where
  "conflict_pairs st =
     sum_list (map (\<lambda>i. equal_pairs (rowOf st i)) [0..<9])
     + sum_list (map (\<lambda>j. equal_pairs (colOf st j)) [0..<9])"

text \<open>The number of cells of a line whose value occurs at an earlier cell of the line.\<close>

definition repeats :: "'a list \<Rightarrow> nat" where
  "repeats xs = length xs - card (set xs)"

definition solvedGrid :: grid where
  "solvedGrid =
    [[Some 5, Some 3, Some 4, Some 6, Some 7, Some 8, Some 9, Some 1, Some 2],
     [Some 6, Some 7, Some 2, Some 1, Some 9, Some 5, Some 3, Some 4, Some 8],
     [Some 1, Some 9, Some 8, Some 3, Some 4, Some 2, Some 5, Some 6, Some 7],
     [Some 8, Some 5, Some 9, Some 7, Some 6, Some 1, Some 4, Some 2, Some 3],
     [Some 4, Some 2, Some 6, Some 8, Some 5, Some 3, Some 7, Some 9, Some 1],
     [Some 7, Some 1, Some 3, Some 9, Some 2, Some 4, Some 8, Some 5, Some 6],
     [Some 9, Some 6, Some 1, Some 5, Some 3, Some 7, Some 2, Some 8, Some 4],
     [Some 2, Some 8, Some 7, Some 4, Some 1, Some 9, Some 6, Some 3, Some 5],
     [Some 3, Some 4, Some 5, Some 2, Some 8, Some 6, Some 1, Some 7, Some 9]]"

definition oneEmpty :: grid where
  "oneEmpty = upd2 solvedGrid 8 8 None"

definition onesGrid :: grid where
  "onesGrid = replicate 9 (replicate 9 (Some 1))"

definition allDomains :: domains where
  "allDomains = replicate 9 (replicate 9 [1, 2, 3, 4, 5, 6, 7, 8, 9])"

definition clashGrid :: grid where
  "clashGrid = upd2 solvedGrid 8 8 (Some 3)"

definition allFixed :: "bool list list" where
  "allFixed = replicate 9 (replicate 9 True)"

definition zeroRng :: rng where
  "zeroRng = (\<lambda>k. 0)"

text \<open>No cell that is empty in the node's grid has an empty domain.\<close>

definition no_empty_domain :: "node \<Rightarrow> bool" where
  "no_empty_domain n =
     (\<forall>r<9. \<forall>c<9. state (problem n) ! r ! c = None \<longrightarrow> domain (problem n) ! r ! c \<noteq> [])"

text \<open>
  A parent for the forward check: two empty cells at the end of the last row; the first
  may take 7 or 9, the second 9 only.
\<close>

definition twoEmpty :: problem where
  "twoEmpty =
     \<lparr>state = upd2 oneEmpty 8 7 None,
      domain = upd2 (upd2 (replicate 9 (replicate 9 [])) 8 7 [7, 9]) 8 8 [9],
      fixed = upd2 (upd2 (replicate 9 (replicate 9 True)) 8 7 False) 8 8 False\<rparr>"

definition twoEmptyNode :: node where
  "twoEmptyNode = Node twoEmpty None \<lparr>row = 8, col = 7\<rparr>"

text \<open>The same grid, with 9 as the only candidate of both empty cells.\<close>

definition twoNinesNode :: node where
  "twoNinesNode =
     Node (twoEmpty\<lparr>domain := upd2 (domain twoEmpty) 8 7 [9]\<rparr>) None \<lparr>row = 8, col = 7\<rparr>"

definition inside9 :: "position option \<Rightarrow> bool" where
  "inside9 b = (case b of None \<Rightarrow> True | Some q \<Rightarrow> row q < 9 \<and> col q < 9)"

text \<open>
  The order the claim C8 describes. A peer of a position is another cell of its row, its
  column or its block; \<open>eliminated\<close> counts the entries equal to the value in the
  domains of the empty peers.
\<close>

definition is_peer :: "position \<Rightarrow> nat \<Rightarrow> nat \<Rightarrow> bool" where
  "is_peer pos i j =
     ((i, j) \<noteq> (row pos, col pos) \<and>
      (i = row pos \<or> j = col pos \<or> (i div 3 = row pos div 3 \<and> j div 3 = col pos div 3)))"

definition eliminated_at :: "problem \<Rightarrow> position \<Rightarrow> int \<Rightarrow> nat \<times> nat \<Rightarrow> nat" where
  "eliminated_at p pos v ij =
     (case ij of (i, j) \<Rightarrow>
        if is_peer pos i j \<and> state p ! i ! j = None
        then length (filter (\<lambda>x. x = v) (domain p ! i ! j)) else 0)"

definition eliminated :: "problem \<Rightarrow> position \<Rightarrow> int \<Rightarrow> nat" where
  "eliminated p pos v = sum_list (map (eliminated_at p pos v) (List.product [0..<9] [0..<9]))"

definition eliminated_entry :: "problem \<Rightarrow> position \<Rightarrow> int \<Rightarrow> int \<times> nat" where
  "eliminated_entry p pos v = (v, eliminated p pos v)"

definition getLCV_claimed :: "problem \<Rightarrow> position \<Rightarrow> int list" where
  "getLCV_claimed p pos =
     map fst (sort_key snd (map (eliminated_entry p pos) (domain p ! row pos ! col pos)))"

text \<open>
  A problem of the MRV and LCV search: the first three rows and one cell of the fourth
  are assigned, and the domains of the empty cells have lost the values the search
  assigned to their peers.
\<close>

definition lcvProblem :: problem where
  "lcvProblem =
     \<lparr>state =
        [[Some 5, Some 9, Some 8, Some 6, Some 4, Some 3, Some 7, Some 2, Some 1],
         [Some 6, Some 4, Some 1, Some 7, Some 5, Some 2, Some 8, Some 3, Some 9],
         [Some 7, Some 3, Some 2, Some 1, Some 9, Some 8, Some 6, Some 4, Some 5],
         [None, Some 5, None, None, None, None, None, None, None],
         replicate 9 None, replicate 9 None, replicate 9 None, replicate 9 None,
         replicate 9 None],
      domain =
        [replicate 9 [], replicate 9 [], replicate 9 [],
         [[1, 2, 3, 4, 8, 9], [], [3, 4, 6, 7, 9], [2, 3, 4, 8, 9], [1, 2, 3, 6, 7, 8],
          [1, 4, 6, 7, 9], [1, 2, 3, 4, 7, 8, 9], [1, 6, 7, 8, 9], [2, 3, 4, 6, 7, 8]],
         [[1, 2, 3, 4, 8, 9], [1, 2, 6, 7, 8], [3, 4, 6, 7, 9], [2, 3, 4, 5, 8, 9],
          [1, 2, 3, 6, 7, 8], [1, 4, 5, 6, 7, 9], [1, 2, 3, 4, 5, 7, 8, 9], [1, 5, 6, 7, 8, 9],
          [2, 3, 4, 5, 6, 7, 8]],
         [[1, 2, 3, 4, 8, 9], [1, 2, 6, 7, 8], [3, 4, 6, 7, 9], [2, 3, 4, 5, 8, 9],
          [1, 2, 3, 6, 7, 8], [1, 4, 5, 6, 7, 9], [1, 2, 3, 4, 5, 7, 8, 9], [1, 5, 6, 7, 8, 9],
          [2, 3, 4, 5, 6, 7, 8]],
         [[1, 2, 3, 4, 5, 8, 9], [1, 2, 6, 7, 8], [3, 4, 5, 6, 7, 9], [2, 3, 4, 5, 8, 9],
          [1, 2, 3, 6, 7, 8], [1, 4, 5, 6, 7, 9], [1, 2, 3, 4, 5, 7, 8, 9], [1, 5, 6, 7, 8, 9],
          [2, 3, 4, 5, 6, 7, 8]],
         [[1, 2, 3, 4, 5, 8, 9], [1, 2, 6, 7, 8], [3, 4, 5, 6, 7, 9], [2, 3, 4, 5, 8, 9],
          [1, 2, 3, 6, 7, 8], [1, 4, 5, 6, 7, 9], [1, 2, 3, 4, 5, 7, 8, 9], [1, 5, 6, 7, 8, 9],
          [2, 3, 4, 5, 6, 7, 8]],
         [[1, 2, 3, 4, 5, 8, 9], [1, 2, 6, 7, 8], [3, 4, 5, 6, 7, 9], [2, 3, 4, 5, 8, 9],
          [1, 2, 3, 6, 7, 8], [1, 4, 5, 6, 7, 9], [1, 2, 3, 4, 5, 7, 8, 9], [1, 5, 6, 7, 8, 9],
          [2, 3, 4, 5, 6, 7, 8]]],
      fixed =
        upd2 (upd2 (upd2 (upd2 (replicate 9 (replicate 9 False)) 0 0 True) 0 6 True) 1 6 True)
          2 8 True\<rparr>"

text \<open>A grid without empty cells.\<close>

definition full_grid :: "grid \<Rightarrow> bool" where
  "full_grid g = (\<forall>i<9. \<forall>j<9. g ! i ! j \<noteq> None)"







definition init_cells :: "grid \<Rightarrow> (nat \<times> nat) list \<Rightarrow> domains \<times> bool list list \<Rightarrow> domains \<times> bool list list" where
  "init_cells st cs df = fold (\<lambda>(i, j) df. initCell st i j df) cs df"




definition counted :: "anneal \<Rightarrow> bool" where
  "counted s = (currentConflicts s = countConflicts (current s))"








text \<open>No value occurs more than twice in a line; in every row and every column.\<close>

definition at_most_twice :: "'a list \<Rightarrow> bool" where
  "at_most_twice xs = list_all (\<lambda>x. count_list xs x \<le> 2) xs"

definition lines_at_most_twice :: "'a list list \<Rightarrow> bool" where
  "lines_at_most_twice st =
     (list_all (\<lambda>i. at_most_twice (rowOf st i)) [0..<9] \<and>
      list_all (\<lambda>j. at_most_twice (colOf st j)) [0..<9])"


text \<open>The matrix of candidate lists that the store holds at an address.\<close>

definition cell_of :: "store \<Rightarrow> nat option \<Rightarrow> int list" where
  "cell_of h x = (case x of None \<Rightarrow> [] | Some c \<Rightarrow> cells h ! c)"

definition read_row :: "store \<Rightarrow> nat \<Rightarrow> int list list" where
  "read_row h ra = map (cell_of h) (rows h ! ra)"

definition read_matrix :: "store \<Rightarrow> nat \<Rightarrow> domains" where
  "read_matrix h d = map (read_row h) (mats h ! d)"

text \<open>
  A well-formed matrix, as the type \<open>number[][][]\<close> has it: the address and the addresses
  it holds are addresses of the store, and no row has a missing element.
\<close>

definition cell_in :: "store \<Rightarrow> nat option \<Rightarrow> bool" where
  "cell_in h x = (case x of None \<Rightarrow> False | Some c \<Rightarrow> c < length (cells h))"

definition row_at :: "store \<Rightarrow> nat \<Rightarrow> bool" where
  "row_at h ra = (ra < length (rows h) \<and> list_all (cell_in h) (rows h ! ra))"

definition matrix_at :: "store \<Rightarrow> nat \<Rightarrow> bool" where
  "matrix_at h d = (d < length (mats h) \<and> list_all (row_at h) (mats h ! d))"

text \<open>Every array of the first store is in the second one, with the same elements.\<close>

definition kept :: "'a list \<Rightarrow> 'a list \<Rightarrow> bool" where
  "kept xs ys = (take (length xs) ys = xs)"

definition frame :: "store \<Rightarrow> store \<Rightarrow> bool" where
  "frame h h' = (kept (cells h) (cells h') \<and> kept (rows h) (rows h') \<and> kept (mats h) (mats h'))"

text \<open>
  The matrix at \<open>nd\<close> was made after the store \<open>base\<close>: its rows are different arrays
  that \<open>base\<close> does not have, and \<open>base\<close> is kept.
\<close>

definition own :: "store \<Rightarrow> store \<Rightarrow> nat \<Rightarrow> bool" where
  "own base h nd =
     (frame base h \<and> nd < length (mats h) \<and> distinct (mats h ! nd) \<and>
      list_all (\<lambda>a. length (rows base) \<le> a \<and> row_at h a) (mats h ! nd))"

text \<open>The cells a call reads exist: the call does not throw.\<close>

definition in_matrix :: "domains \<Rightarrow> nat \<times> nat \<Rightarrow> bool" where
  "in_matrix m p = (fst p < length m \<and> snd p < length (m ! fst p))"

definition can_update :: "domains \<Rightarrow> position \<Rightarrow> bool" where
  "can_update m pos =
     (row pos < length m \<and>
      list_all (in_matrix m) (map (\<lambda>i. (i, col pos)) [0..<length m]) \<and>
      list_all (in_matrix m)
        (List.product [(row pos div 3) * 3..<(row pos div 3) * 3 + 3]
           [(col pos div 3) * 3..<(col pos div 3) * 3 + 3]))"

text \<open>A store with one matrix: six rows of six cells, every cell with the digits 1, 2, 3.\<close>

definition sixStore :: store where
  "sixStore =
     \<lparr>cells = replicate 36 [1, 2, 3],
      rows = map (\<lambda>i. map (\<lambda>j. Some (6 * i + j)) [0..<6]) [0..<6],
      mats = [[0..<6]]\<rparr>"

text \<open>The store after \<open>updateDomain\<close> with the value 2 at the cell (1, 1) of that matrix.\<close>

definition sixAfter :: store where
  "sixAfter = snd (updateDomain_store 0 \<lparr>row = 1, col = 1\<rparr> 2 sixStore)"

text \<open>
  No two different filled cells of one row, one column or one block hold the same value.
\<close>

definition no_conflict :: "grid \<Rightarrow> bool" where
  "no_conflict st =
     (\<forall>r1<9. \<forall>c1<9. \<forall>r2<9. \<forall>c2<9.
        st ! r1 ! c1 \<noteq> None \<and> st ! r1 ! c1 = st ! r2 ! c2 \<and> (r1, c1) \<noteq> (r2, c2) \<longrightarrow>
        \<not> (r1 = r2 \<or> c1 = c2 \<or> (r1 div 3 = r2 div 3 \<and> c1 div 3 = c2 div 3)))"





text \<open>A store with one matrix: nine rows of nine cells, every cell with the nine digits.\<close>

definition nineStore :: store where
  "nineStore =
     \<lparr>cells = replicate 81 [1, 2, 3, 4, 5, 6, 7, 8, 9],
      rows = map (\<lambda>i. map (\<lambda>j. Some (9 * i + j)) [0..<9]) [0..<9],
      mats = [[0..<9]]\<rparr>"

text \<open>The store after \<open>updateDomain\<close> with the value 5 at the cell (4, 4) of that matrix.\<close>

definition nineAfter :: store where
  "nineAfter = snd (updateDomain_store 0 \<lparr>row = 4, col = 4\<rparr> 5 nineStore)"

section \<open>Properties of getNextPosition\<close>

lemma scan_cols_past_end: "sz \<le> j \<Longrightarrow> scan_cols st sz i j = None"
  by (subst scan_cols.simps) simp

lemma scan_rows_start_irrelevant:
  "startRow < i \<Longrightarrow> startRow' \<le> i \<Longrightarrow>
   scan_rows st sz startRow startCol i = scan_rows st sz startRow' 0 i"
proof (induction st sz startRow startCol i rule: scan_rows.induct)
  case (1 st sz startRow startCol i)
  show ?case
  proof (cases "i < sz")
    case False
    then show ?thesis
      by (subst scan_rows.simps, subst (2) scan_rows.simps) simp
  next
    case True
    have start: "(if i = startRow then startCol else 0) = (if i = startRow' then 0 else 0)"
      using "1.prems" by simp
    show ?thesis
    proof (cases "scan_cols st sz i 0")
      case None
      have "scan_rows st sz startRow startCol (Suc i) = scan_rows st sz startRow' 0 (Suc i)"
        using "1.IH" [OF True] None "1.prems" by simp
      then show ?thesis
        using True None "1.prems"
        by (subst scan_rows.simps, subst (2) scan_rows.simps) simp
    next
      case (Some j)
      then show ?thesis
        using True "1.prems"
        by (subst scan_rows.simps, subst (2) scan_rows.simps) simp
    qed
  qed
qed

text \<open>
  C10. The two copies of getNextPosition return the same result on every grid and every
  current position (or null): the copy without the end-of-row adjustment scans an empty
  rest of the start row and goes on at column 0 of the next row, which is where the
  adjusted copy starts.
\<close>

theorem getNextPosition_copies_equal:
  "getNextPosition st cur = getNextPosition_unadjusted st cur"
proof (cases "length st \<le> (case cur of Some p \<Rightarrow> col p + 1 | None \<Rightarrow> 0)")
  case False
  then show ?thesis
    by (simp add: getNextPosition_def getNextPosition_unadjusted_def Let_def)
next
  case True
  define sz where "sz = length st"
  define startRow where "startRow = (case cur of Some p \<Rightarrow> row p | None \<Rightarrow> 0)"
  define startCol where "startCol = (case cur of Some p \<Rightarrow> col p + 1 | None \<Rightarrow> 0)"
  have past: "sz \<le> startCol"
    using True by (simp add: sz_def startCol_def)
  have lhs: "getNextPosition st cur = scan_rows st sz (startRow + 1) 0 (startRow + 1)"
    using past by (simp add: getNextPosition_def Let_def sz_def startRow_def startCol_def)
  have rhs: "getNextPosition_unadjusted st cur = scan_rows st sz startRow startCol startRow"
    by (simp add: getNextPosition_unadjusted_def Let_def sz_def startRow_def startCol_def)
  have "scan_rows st sz startRow startCol startRow = scan_rows st sz (startRow + 1) 0 (startRow + 1)"
  proof (cases "startRow < sz")
    case False
    then show ?thesis
      by (subst scan_rows.simps, subst (2) scan_rows.simps) simp
  next
    case True
    have "scan_rows st sz startRow startCol startRow
          = scan_rows st sz startRow startCol (Suc startRow)"
      using True scan_cols_past_end [OF past]
      by (subst scan_rows.simps) simp
    also have "\<dots> = scan_rows st sz (Suc startRow) 0 (Suc startRow)"
      by (rule scan_rows_start_irrelevant) simp_all
    finally show ?thesis by simp
  qed
  then show ?thesis using lhs rhs by simp
qed

section \<open>Properties of the domain propagator\<close>

lemma upd2_length [simp]: "length (upd2 m i j x) = length m"
  by (simp add: upd2_def)

lemma upd2_nth:
  "upd2 m i j x ! k ! l = (if k = i \<and> l = j \<and> i < length m \<and> j < length (m ! i) then x else m ! k ! l)"
  by (cases "i < length m"; cases "k = i"; cases "l = j"; cases "j < length (m ! i)")
     (simp_all add: upd2_def list_update_beyond)

lemma upd2_row_length [simp]: "length (upd2 m i j x ! k) = length (m ! k)"
  by (cases "i < length m"; cases "k = i") (simp_all add: upd2_def list_update_beyond)

lemma remove_at_length [simp]: "length (remove_at nd i j v) = length nd"
  by (simp add: remove_at_def)

lemma remove_at_row_length [simp]: "length (remove_at nd i j v ! k) = length (nd ! k)"
  by (simp add: remove_at_def)

lemma remove_at_nth:
  "remove_at nd i j v ! k ! l =
     (if k = i \<and> l = j \<and> i < length nd \<and> j < length (nd ! i)
      then filter (\<lambda>x. x \<noteq> v) (nd ! k ! l) else nd ! k ! l)"
proof (cases "v \<in> set (nd ! i ! j)")
  case True
  then show ?thesis by (simp add: remove_at_def upd2_nth)
next
  case False
  then have "filter (\<lambda>x. x \<noteq> v) (nd ! i ! j) = nd ! i ! j"
    by (simp add: filter_id_conv) blast
  with False show ?thesis by (auto simp add: remove_at_def)
qed

lemma remove_cells_length [simp]: "length (remove_cells nd cs v) = length nd"
  unfolding remove_cells_def by (induction cs arbitrary: nd) auto

lemma remove_cells_row_length [simp]: "length (remove_cells nd cs v ! k) = length (nd ! k)"
  unfolding remove_cells_def by (induction cs arbitrary: nd) auto

lemma remove_cells_nth:
  "remove_cells nd cs v ! k ! l =
     (if (k, l) \<in> set cs \<and> k < length nd \<and> l < length (nd ! k)
      then filter (\<lambda>x. x \<noteq> v) (nd ! k ! l) else nd ! k ! l)"
  unfolding remove_cells_def
proof (induction cs arbitrary: nd)
  case Nil
  then show ?case by simp
next
  case (Cons c cs)
  obtain i j where c: "c = (i, j)" by (cases c)
  show ?case
    by (auto simp add: c Cons.IH remove_at_nth)
qed

lemma row_loop_cells:
  "fold (\<lambda>j nd. remove_at nd r j v) js nd = remove_cells nd (map (\<lambda>j. (r, j)) js) v"
  by (simp add: remove_cells_def fold_map comp_def)

lemma col_loop_cells:
  "fold (\<lambda>i nd. remove_at nd i c v) is nd = remove_cells nd (map (\<lambda>i. (i, c)) is) v"
  by (simp add: remove_cells_def fold_map comp_def)

lemma remove_cells_append:
  "remove_cells nd (xs @ ys) v = remove_cells (remove_cells nd xs v) ys v"
  by (simp add: remove_cells_def)

lemma block_loop_cells:
  "fold (\<lambda>i nd. fold (\<lambda>j nd. remove_at nd i j v) js nd) is nd
   = remove_cells nd (List.product is js) v"
proof (induction "is" arbitrary: nd)
  case Nil
  then show ?case by (simp add: remove_cells_def)
next
  case (Cons i "is")
  have "fold (\<lambda>i nd. fold (\<lambda>j nd. remove_at nd i j v) js nd) (i # is) nd
        = fold (\<lambda>i nd. fold (\<lambda>j nd. remove_at nd i j v) js nd) is
            (fold (\<lambda>j nd. remove_at nd i j v) js nd)"
    by simp
  also have "\<dots> = remove_cells (fold (\<lambda>j nd. remove_at nd i j v) js nd) (List.product is js) v"
    by (rule Cons.IH)
  also have "\<dots> = remove_cells (remove_cells nd (map (\<lambda>j. (i, j)) js) v) (List.product is js) v"
    by (simp only: row_loop_cells)
  finally show ?case
    by (simp add: remove_cells_append)
qed

lemma block_range: "(k \<in> {(r div 3) * 3 ..< (r div 3) * 3 + 3}) = (k div 3 = r div (3::nat))"
  by auto

lemma block_loop_cells2:
  "fold (\<lambda>i nd. remove_cells nd (map (\<lambda>j. (i, j)) js) v) is nd
   = remove_cells nd (List.product is js) v"
  using block_loop_cells [of v js "is" nd] by (simp add: row_loop_cells)

lemma updateDomain_cells:
  assumes "length dm = 9" "length (dm ! r) = 9"
  shows "updateDomain dm \<lparr>row = r, col = c\<rparr> v =
      upd2 (remove_cells (remove_cells (remove_cells dm (map (\<lambda>j. (r, j)) [0..<9]) v)
              (map (\<lambda>i. (i, c)) [0..<9]) v)
              (List.product [(r div 3) * 3..<(r div 3) * 3 + 3] [(c div 3) * 3..<(c div 3) * 3 + 3]) v)
        r c []"
  using assms
  by (simp add: updateDomain_def Let_def row_loop_cells col_loop_cells block_loop_cells2)

lemma updateDomain_nth:
  assumes "grid9 dm" "r < 9" "c < 9" "k < 9" "l < 9"
  shows "updateDomain dm \<lparr>row = r, col = c\<rparr> v ! k ! l =
     (if k = r \<and> l = c then []
      else if peersOrSelf r c k l then filter (\<lambda>x. x \<noteq> v) (dm ! k ! l)
      else dm ! k ! l)"
proof -
  have len: "length dm = 9" and rows: "\<And>i. i < 9 \<Longrightarrow> length (dm ! i) = 9"
    using assms(1) by (auto simp add: grid9_def list_all_length)
  have inrow: "((k, l) \<in> set (map (\<lambda>j. (r, j)) [0..<9])) = (k = r)"
    using assms by auto
  have incol: "((k, l) \<in> set (map (\<lambda>i. (i, c)) [0..<9])) = (l = c)"
    using assms by auto
  have inblock: "((k, l) \<in> set (List.product [(r div 3) * 3..<(r div 3) * 3 + 3]
                     [(c div 3) * 3..<(c div 3) * 3 + 3]))
                 = (k div 3 = r div 3 \<and> l div 3 = c div 3)"
    using block_range [of k r] block_range [of l c] by simp
  show ?thesis
    using assms(2-) len rows
    by (simp only: updateDomain_cells upd2_nth remove_cells_nth inrow incol inblock
          remove_cells_length remove_cells_row_length peersOrSelf_def)
       auto
qed

section \<open>Properties of the consistency checker\<close>

lemma push_all_append: "push_all hm (xs @ ys) = push_all (push_all hm xs) ys"
  by (simp add: push_all_def)

lemma populate_cell_push: "populate_cell st i j hm = push_all hm (cell_entry st i j)"
  by (simp add: populate_cell_def cell_entry_def push_all_def split: option.splits)

lemma populate_row:
  "fold (populate_cell st i) js hm = push_all hm (concat (map (cell_entry st i) js))"
proof (induction js arbitrary: hm)
  case Nil
  then show ?case by (simp add: push_all_def)
next
  case (Cons j js)
  show ?case
    by (simp add: Cons.IH push_all_append) (simp add: populate_cell_push)
qed

lemma populate_rows:
  "fold (\<lambda>i hm. fold (populate_cell st i) [0..<length (st ! i)] hm) is hm
   = push_all hm (concat (map (filled_row st) is))"
proof (induction "is" arbitrary: hm)
  case Nil
  then show ?case by (simp add: push_all_def)
next
  case (Cons i "is")
  have "fold (\<lambda>i hm. fold (populate_cell st i) [0..<length (st ! i)] hm) (i # is) hm
        = fold (\<lambda>i hm. fold (populate_cell st i) [0..<length (st ! i)] hm) is
            (fold (populate_cell st i) [0..<length (st ! i)] hm)"
    by simp
  also have "\<dots> = push_all (fold (populate_cell st i) [0..<length (st ! i)] hm)
                      (concat (map (filled_row st) is))"
    by (rule Cons.IH)
  also have "fold (populate_cell st i) [0..<length (st ! i)] hm = push_all hm (filled_row st i)"
    by (simp only: populate_row filled_row_def)
  finally show ?case
    by (simp add: push_all_append)
qed

lemma populate_filled: "populate st = push_all [] (filled st)"
  by (simp only: populate_def filled_def populate_rows)

lemma hashmap_push_keys:
  "distinct (map fst hm) \<Longrightarrow> distinct (map fst (hashmap_push hm v p))"
proof -
  have same: "map fst (map (\<lambda>(k, ps). if k = v then (k, ps @ [p]) else (k, ps)) hm) = map fst hm"
    by (induction hm) auto
  have fresh: "map_of hm v = None \<Longrightarrow> v \<notin> set (map fst hm)"
    by (simp add: map_of_eq_None_iff)
  assume d: "distinct (map fst hm)"
  show "distinct (map fst (hashmap_push hm v p))"
  proof (cases "map_of hm v = None")
    case True
    then show ?thesis using d fresh by (simp add: hashmap_push_def)
  next
    case False
    then show ?thesis using d by (simp only: hashmap_push_def same if_False)
  qed
qed

lemma map_of_hashmap_push:
  "map_of (hashmap_push hm v p) k =
     (if k = v then Some ((case map_of hm v of None \<Rightarrow> [] | Some ps \<Rightarrow> ps) @ [p])
      else map_of hm k)"
proof (cases "map_of hm v")
  case None
  then show ?thesis
    by (auto simp add: hashmap_push_def map_add_def split: option.splits)
next
  case (Some ps)
  have "map_of (map (\<lambda>(k, ps). if k = v then (k, ps @ [p]) else (k, ps)) hm) k
        = (if k = v then map_option (\<lambda>ps. ps @ [p]) (map_of hm k) else map_of hm k)"
    by (induction hm) auto
  with Some show ?thesis
    by (simp add: hashmap_push_def)
qed

lemma push_all_keys:
  "distinct (map fst hm) \<Longrightarrow> distinct (map fst (push_all hm xs))"
  unfolding push_all_def
  by (induction xs arbitrary: hm) (auto simp add: hashmap_push_keys)

lemma map_of_push_all:
  "map_of (push_all hm xs) k =
     (if positions_of xs k = [] then map_of hm k
      else Some ((case map_of hm k of None \<Rightarrow> [] | Some ps \<Rightarrow> ps) @ positions_of xs k))"
  unfolding push_all_def
proof (induction xs arbitrary: hm)
  case Nil
  then show ?case by (simp add: positions_of_def)
next
  case (Cons x xs)
  obtain p v where x: "x = (p, v)" by (cases x)
  show ?case
    by (simp add: x Cons.IH map_of_hashmap_push positions_of_def)
qed

lemma map_of_populate:
  "map_of (populate st) k =
     (if positions_of (filled st) k = [] then None else Some (positions_of (filled st) k))"
  by (simp add: populate_filled map_of_push_all)

lemma populate_keys: "distinct (map fst (populate st))"
  by (simp add: populate_filled push_all_keys)

lemma check_positions_iff:
  "check_positions rs cs bs ps =
     (distinct (map row ps) \<and> set (map row ps) \<inter> set rs = {} \<and>
      distinct (map col ps) \<and> set (map col ps) \<inter> set cs = {} \<and>
      distinct (map (\<lambda>p. (row p div 3, col p div 3)) ps) \<and>
      set (map (\<lambda>p. (row p div 3, col p div 3)) ps) \<inter> set bs = {})"
proof (induction ps arbitrary: rs cs bs)
  case Nil
  then show ?case by simp
next
  case (Cons p ps)
  show ?case
    by (simp add: Cons.IH) blast
qed

lemma check_entries_iff:
  "check_entries hm = (\<forall>e \<in> set hm. check_positions [] [] [] (snd e))"
  by (induction hm rule: check_entries.induct) auto


lemma position_eq_iff: "(p = \<lparr>row = i, col = j\<rparr>) = (row p = i \<and> col p = j)"
  by (cases p) auto

lemma set_cell_entry:
  "set (cell_entry st i j) = {(p, v). row p = i \<and> col p = j \<and> st ! i ! j = Some v}"
  by (auto simp add: cell_entry_def position_eq_iff split: option.splits)

lemma set_cells_of_row:
  "set (concat (map (cell_entry st i) js))
   = {(p, v). row p = i \<and> col p \<in> set js \<and> st ! i ! col p = Some v}"
  by (auto simp add: set_cell_entry)

lemma cell_entry_fst: "(p, v) \<in> set (cell_entry st i j) \<Longrightarrow> row p = i \<and> col p = j"
  by (simp add: set_cell_entry)

lemma cells_of_row_fst:
  "(p, v) \<in> set (concat (map (cell_entry st i) js)) \<Longrightarrow> row p = i \<and> col p \<in> set js"
  by (simp only: set_cells_of_row) simp

lemma filled_row_fst: "(p, v) \<in> set (filled_row st i) \<Longrightarrow> row p = i"
  unfolding filled_row_def by (drule cells_of_row_fst) simp

lemma filled_rows_fst: "(p, v) \<in> set (concat (map (filled_row st) is)) \<Longrightarrow> row p \<in> set is"
  by (auto dest: filled_row_fst)

lemma distinct_cells_of_row:
  "distinct js \<Longrightarrow> distinct (map fst (concat (map (cell_entry st i) js)))"
proof (induction js)
  case Nil
  then show ?case by simp
next
  case (Cons j js)
  have one: "distinct (map fst (cell_entry st i j))"
    by (simp add: cell_entry_def split: option.splits)
  have apart: "fst ` set (cell_entry st i j) \<inter> fst ` set (concat (map (cell_entry st i) js)) = {}"
  proof -
    have False if "p \<in> fst ` set (cell_entry st i j)"
      and "p \<in> fst ` set (concat (map (cell_entry st i) js))" for p
    proof -
      from that(1) obtain v where "(p, v) \<in> set (cell_entry st i j)" by force
      then have "col p = j" by (rule cell_entry_fst [THEN conjunct2])
      moreover from that(2) obtain w where "(p, w) \<in> set (concat (map (cell_entry st i) js))"
        by force
      then have "col p \<in> set js" by (rule cells_of_row_fst [THEN conjunct2])
      ultimately show False using Cons.prems by simp
    qed
    then show ?thesis by blast
  qed
  have rest: "distinct (map fst (concat (map (cell_entry st i) js)))"
    using Cons by simp
  show ?case
    unfolding list.map concat.simps map_append distinct_append set_map
    using one apart rest by blast
qed

lemma set_filled_row:
  "set (filled_row st i)
   = {(p, v). row p = i \<and> col p < length (st ! i) \<and> st ! i ! col p = Some v}"
  unfolding filled_row_def set_cells_of_row by simp

lemma distinct_filled_row: "distinct (map fst (filled_row st i))"
  by (simp add: filled_row_def distinct_cells_of_row)

lemma set_filled_rows:
  "set (concat (map (filled_row st) is))
   = {(p, v). row p \<in> set is \<and> col p < length (st ! row p) \<and> st ! row p ! col p = Some v}"
  by (auto simp add: set_filled_row)

lemma distinct_filled_rows:
  "distinct is \<Longrightarrow> distinct (map fst (concat (map (filled_row st) is)))"
proof (induction "is")
  case Nil
  then show ?case by simp
next
  case (Cons i "is")
  have apart: "fst ` set (filled_row st i) \<inter> fst ` set (concat (map (filled_row st) is)) = {}"
  proof -
    have False if "p \<in> fst ` set (filled_row st i)"
      and "p \<in> fst ` set (concat (map (filled_row st) is))" for p
    proof -
      from that(1) obtain v where "(p, v) \<in> set (filled_row st i)" by force
      then have "row p = i" by (rule filled_row_fst)
      moreover from that(2) obtain w where "(p, w) \<in> set (concat (map (filled_row st) is))"
        by force
      then have "row p \<in> set is" by (rule filled_rows_fst)
      ultimately show False using Cons.prems by simp
    qed
    then show ?thesis by blast
  qed
  have rest: "distinct (map fst (concat (map (filled_row st) is)))"
    using Cons by simp
  show ?case
    unfolding list.map concat.simps map_append distinct_append set_map
    using distinct_filled_row [of st i] apart rest by blast
qed

lemma set_filled:
  "set (filled st)
   = {(p, v). row p < length st \<and> col p < length (st ! row p) \<and> st ! row p ! col p = Some v}"
  unfolding filled_def set_filled_rows by simp

lemma distinct_filled: "distinct (map fst (filled st))"
  by (simp add: filled_def distinct_filled_rows)

lemma set_positions_of:
  "set (positions_of (filled st) v)
   = {p. row p < length st \<and> col p < length (st ! row p) \<and> st ! row p ! col p = Some v}"
  by (force simp add: positions_of_def set_filled)

lemma distinct_positions_of: "distinct (positions_of (filled st) v)"
  unfolding positions_of_def
  using distinct_filled [of st] by (rule distinct_map_filter)

lemma check_positions_groups: "check_positions [] [] [] ps = groups_distinct ps"
  by (simp add: check_positions_iff groups_distinct_def)

lemma populate_entries:
  "((v, ps) \<in> set (populate st)) = (ps = positions_of (filled st) v \<and> ps \<noteq> [])"
proof -
  have "((v, ps) \<in> set (populate st)) = (map_of (populate st) v = Some ps)"
    using populate_keys [of st] by simp
  also have "\<dots> = (ps = positions_of (filled st) v \<and> ps \<noteq> [])"
    by (auto simp add: map_of_populate)
  finally show ?thesis .
qed

lemma consistent_iff_distinct:
  "consistent p = (\<forall>v. groups_distinct (positions_of (filled (state p)) v))"
proof
  assume c: "consistent p"
  show "\<forall>v. groups_distinct (positions_of (filled (state p)) v)"
  proof
    fix v
    show "groups_distinct (positions_of (filled (state p)) v)"
    proof (cases "positions_of (filled (state p)) v = []")
      case True
      then show ?thesis by (simp add: groups_distinct_def)
    next
      case False
      then have "(v, positions_of (filled (state p)) v) \<in> set (populate (state p))"
        by (simp add: populate_entries)
      with c show ?thesis
        unfolding consistent_def check_entries_iff check_positions_groups by force
    qed
  qed
next
  assume g: "\<forall>v. groups_distinct (positions_of (filled (state p)) v)"
  have "check_positions [] [] [] (snd e)" if "e \<in> set (populate (state p))" for e
  proof -
    obtain v ps where e: "e = (v, ps)" by (cases e)
    with that have "ps = positions_of (filled (state p)) v"
      by (simp add: populate_entries)
    with g e show ?thesis
      by (simp add: check_positions_groups)
  qed
  then show "consistent p"
    by (simp add: consistent_def check_entries_iff)
qed

lemma groups_distinct_positions:
  "groups_distinct (positions_of (filled st) v) =
     (\<forall>p \<in> set (positions_of (filled st) v). \<forall>q \<in> set (positions_of (filled st) v).
        p \<noteq> q \<longrightarrow> row p \<noteq> row q \<and> col p \<noteq> col q \<and>
                 \<not> (row p div 3 = row q div 3 \<and> col p div 3 = col q div 3))"
  unfolding groups_distinct_def
  by (simp add: distinct_map distinct_positions_of inj_on_def) blast

lemma grid9_dims: "grid9 g \<Longrightarrow> length g = 9 \<and> (\<forall>i<9. length (g ! i) = 9)"
  by (simp add: grid9_def list_all_length)

lemma consistent_no_conflict:
  assumes "grid9 (state p)"
  shows "consistent p = no_conflict (state p)"
proof
  have len: "length (state p) = 9" and rows: "\<And>i. i < 9 \<Longrightarrow> length (state p ! i) = 9"
    using grid9_dims [OF assms] by simp_all
  {
    assume c: "consistent p"
    show "no_conflict (state p)"
      unfolding no_conflict_def
    proof (intro allI impI)
      fix r1 c1 r2 c2 :: nat
      assume b: "r1 < 9" "c1 < 9" "r2 < 9" "c2 < 9"
      assume h: "state p ! r1 ! c1 \<noteq> None \<and> state p ! r1 ! c1 = state p ! r2 ! c2
                 \<and> (r1, c1) \<noteq> (r2, c2)"
      then obtain v where v: "state p ! r1 ! c1 = Some v" "state p ! r2 ! c2 = Some v"
        by auto
      let ?S = "set (positions_of (filled (state p)) v)"
      have "\<lparr>row = r1, col = c1\<rparr> \<in> ?S" "\<lparr>row = r2, col = c2\<rparr> \<in> ?S"
        using b v len rows by (simp_all add: set_positions_of)
      moreover have "\<lparr>row = r1, col = c1\<rparr> \<noteq> \<lparr>row = r2, col = c2\<rparr>"
        using h by simp
      moreover have "groups_distinct (positions_of (filled (state p)) v)"
        using c by (simp add: consistent_iff_distinct)
      ultimately show "\<not> (r1 = r2 \<or> c1 = c2 \<or> (r1 div 3 = r2 div 3 \<and> c1 div 3 = c2 div 3))"
        unfolding groups_distinct_positions by fastforce
    qed
  }
  {
    assume n: "no_conflict (state p)"
    have "groups_distinct (positions_of (filled (state p)) v)" for v
      unfolding groups_distinct_positions
    proof (intro ballI impI)
      fix a b
      assume a: "a \<in> set (positions_of (filled (state p)) v)"
        and b: "b \<in> set (positions_of (filled (state p)) v)" and ne: "a \<noteq> b"
      have ra: "row a < 9" "col a < 9" "state p ! row a ! col a = Some v"
        using a len rows by (auto simp add: set_positions_of)
      have rb: "row b < 9" "col b < 9" "state p ! row b ! col b = Some v"
        using b len rows by (auto simp add: set_positions_of)
      have "(row a, col a) \<noteq> (row b, col b)"
        using ne by (cases a; cases b) auto
      with n ra rb
      have "\<not> (row a = row b \<or> col a = col b \<or>
                (row a div 3 = row b div 3 \<and> col a div 3 = col b div 3))"
        unfolding no_conflict_def by (metis option.distinct(1))
      then show "row a \<noteq> row b \<and> col a \<noteq> col b \<and>
                 \<not> (row a div 3 = row b div 3 \<and> col a div 3 = col b div 3)"
        by blast
    qed
    then show "consistent p"
      by (simp add: consistent_iff_distinct)
  }
qed

section \<open>Properties of the conflict count\<close>


lemma count_seen_eq:
  "finite seen \<Longrightarrow>
   count_seen seen xs n = n + (length xs + card seen - card (seen \<union> set xs))"
proof (induction xs arbitrary: seen n)
  case Nil
  then show ?case by simp
next
  case (Cons x xs)
  have le: "card (insert x seen \<union> set xs) \<le> length xs + card (insert x seen)"
    using card_Un_le [of "insert x seen" "set xs"] card_length [of xs] by linarith
  show ?case
  proof (cases "x \<in> seen")
    case True
    then have "insert x seen = seen" "insert x (seen \<union> set xs) = seen \<union> set xs"
      by auto
    with Cons True le show ?thesis by simp
  next
    case False
    with Cons le show ?thesis by simp
  qed
qed

lemma count_seen_repeats: "count_seen {} xs n = n + repeats xs"
  by (simp add: count_seen_eq repeats_def)

lemma fold_add_sum_list:
  "(\<And>i n. g i n = n + f i) \<Longrightarrow> fold g is (n0::nat) = n0 + sum_list (map f is)"
  by (induction "is" arbitrary: n0) simp_all

lemma countConflicts_repeats:
  "countConflicts st =
     sum_list (map (\<lambda>i. repeats (rowOf st i)) [0..<9])
     + sum_list (map (\<lambda>j. repeats (colOf st j)) [0..<9])"
proof -
  have rows: "fold (count_row st) [0..<9] 0 = 0 + sum_list (map (\<lambda>i. repeats (rowOf st i)) [0..<9])"
    by (rule fold_add_sum_list) (simp add: count_row_def count_seen_repeats)
  have cols: "fold (count_col st) [0..<9] n0
              = n0 + sum_list (map (\<lambda>j. repeats (colOf st j)) [0..<9])" for n0
    by (rule fold_add_sum_list) (simp add: count_col_def count_seen_repeats)
  show ?thesis
    by (simp add: countConflicts_def Let_def rows cols)
qed

lemma repeats_Cons: "repeats (x # xs) = repeats xs + (if x \<in> set xs then 1 else 0)"
  using card_length [of xs]
  by (auto simp add: repeats_def insert_absorb)

lemma repeats_le_pairs: "repeats xs \<le> equal_pairs xs"
proof (induction xs)
  case Nil
  then show ?case by (simp add: repeats_def)
next
  case (Cons x xs)
  have "x \<in> set xs \<Longrightarrow> 1 \<le> length (filter (\<lambda>y. y = x) xs)"
    by (induction xs) auto
  with Cons show ?case
    by (auto simp add: repeats_Cons)
qed

lemma repeats_zero: "(repeats xs = 0) = distinct xs"
proof -
  have "(repeats xs = 0) = (card (set xs) = length xs)"
    using card_length [of xs] by (auto simp add: repeats_def)
  also have "\<dots> = distinct xs"
    using card_distinct [of xs] distinct_card [of xs] by blast
  finally show ?thesis .
qed

lemma pairs_zero: "(equal_pairs xs = 0) = distinct xs"
  by (induction xs) (auto simp add: filter_empty_conv)

section \<open>Claims about the propagator, the checker and the conflict count\<close>

lemma position_collapse: "\<lparr>row = row p, col = col p\<rparr> = (p::position)"
  by (cases p) simp

lemma updateDomain_grid9:
  assumes "grid9 dm" "row p < 9"
  shows "grid9 (updateDomain dm p v)"
proof -
  have len: "length dm = 9" and rows: "\<And>i. i < 9 \<Longrightarrow> length (dm ! i) = 9"
    using grid9_dims [OF assms(1)] by simp_all
  show ?thesis
    using updateDomain_cells [of dm "row p" "col p" v] len rows assms(2)
    by (simp add: grid9_def list_all_length position_collapse)
qed

text \<open>
  C4. On a 9x9 domain matrix and a position inside it, \<open>updateDomain\<close> returns a 9x9
  matrix in which the domain of the position is empty, every other cell of its row, column
  or block has its old domain without the value, and every remaining cell has its old
  domain.
\<close>

theorem updateDomain_spec:
  assumes "grid9 dm" "row p < 9" "col p < 9"
  shows "grid9 (updateDomain dm p v) \<and>
         updateDomain dm p v ! row p ! col p = [] \<and>
         (\<forall>k<9. \<forall>l<9. (k, l) \<noteq> (row p, col p) \<longrightarrow>
            updateDomain dm p v ! k ! l =
              (if k = row p \<or> l = col p \<or> (k div 3 = row p div 3 \<and> l div 3 = col p div 3)
               then filter (\<lambda>x. x \<noteq> v) (dm ! k ! l) else dm ! k ! l))"
proof -
  have cell: "updateDomain dm p v ! k ! l =
     (if k = row p \<and> l = col p then []
      else if peersOrSelf (row p) (col p) k l then filter (\<lambda>x. x \<noteq> v) (dm ! k ! l)
      else dm ! k ! l)" if "k < 9" "l < 9" for k l
    using updateDomain_nth [OF assms that, of v] by (simp add: position_collapse)
  show ?thesis
    using assms by (simp add: cell updateDomain_grid9 peersOrSelf_def)
qed

theorem updateDomain_spec_witness:
  "grid9 allDomains \<and>
   updateDomain allDomains \<lparr>row = 4, col = 7\<rparr> 5 ! 4 ! 7 = [] \<and>
   updateDomain allDomains \<lparr>row = 4, col = 7\<rparr> 5 ! 4 ! 0 = [1, 2, 3, 4, 6, 7, 8, 9] \<and>
   updateDomain allDomains \<lparr>row = 4, col = 7\<rparr> 5 ! 0 ! 0 = [1, 2, 3, 4, 5, 6, 7, 8, 9]"
proof -
  have g: "grid9 allDomains"
    by code_simp
  have cells: "allDomains ! 4 ! 0 = [1, 2, 3, 4, 5, 6, 7, 8, 9]"
    "allDomains ! 0 ! 0 = [1, 2, 3, 4, 5, 6, 7, 8, 9]"
    by (simp_all add: allDomains_def)
  have s: "updateDomain allDomains \<lparr>row = 4, col = 7\<rparr> 5 ! 4 ! 7 = [] \<and>
         (\<forall>k<9. \<forall>l<9. (k, l) \<noteq> (4, 7) \<longrightarrow>
            updateDomain allDomains \<lparr>row = 4, col = 7\<rparr> 5 ! k ! l =
              (if k = 4 \<or> l = 7 \<or> (k div 3 = 4 div 3 \<and> l div 3 = 7 div 3)
               then filter (\<lambda>x. x \<noteq> 5) (allDomains ! k ! l) else allDomains ! k ! l))"
    using updateDomain_spec [OF g, of "\<lparr>row = 4, col = 7\<rparr>" 5] by simp
  from s have a: "updateDomain allDomains \<lparr>row = 4, col = 7\<rparr> 5 ! 4 ! 0
                  = filter (\<lambda>x. x \<noteq> 5) (allDomains ! 4 ! 0)"
    by simp
  from s have b: "updateDomain allDomains \<lparr>row = 4, col = 7\<rparr> 5 ! 0 ! 0 = allDomains ! 0 ! 0"
    by simp
  show ?thesis
    using g s a b by (simp add: cells)
qed

text \<open>
  C6. On a 9x9 grid, \<open>consistent\<close> is true exactly when no two different filled cells
  of one row, one column or one block hold the same value; it reads the grid only, so two
  problems with the same grid get the same answer.
\<close>

theorem consistent_spec:
  assumes "grid9 (state p)"
  shows "(consistent p = no_conflict (state p)) \<and>
         (state q = state p \<longrightarrow> consistent q = consistent p)"
  using consistent_no_conflict [OF assms] by (simp add: consistent_def)

lemma state_initiate: "state (initiate st) = st"
  by (simp add: initiate_def split: prod.splits)

theorem consistent_spec_witness:
  "grid9 (state (initiate oneEmpty)) \<and> no_conflict (state (initiate oneEmpty)) \<and>
   grid9 (state (initiate onesGrid)) \<and> \<not> no_conflict (state (initiate onesGrid))"
proof -
  have g: "grid9 (state (initiate oneEmpty))" "grid9 (state (initiate onesGrid))"
    by (simp_all add: state_initiate) code_simp+
  have c: "consistent (initiate oneEmpty)" "\<not> consistent (initiate onesGrid)"
    by code_simp+
  show ?thesis
    using consistent_spec [OF g(1), of "initiate oneEmpty"]
      consistent_spec [OF g(2), of "initiate onesGrid"] g c
    by simp
qed

text \<open>
  C7 as stated fails: on the grid of eighty-one 1s the count is 144, while the rows and
  columns hold 648 pairs of equal cells.
\<close>

theorem countConflicts_pairs_counterexample:
  "countConflicts onesGrid \<noteq> conflict_pairs onesGrid"
  by code_simp

lemma sum_list_map_le:
  "(\<And>x. x \<in> set xs \<Longrightarrow> f x \<le> (g x :: nat)) \<Longrightarrow> sum_list (map f xs) \<le> sum_list (map g xs)"
  by (induction xs) (auto intro: add_mono)

lemma at_most_twice_all: "at_most_twice xs = (\<forall>y. count_list xs y \<le> 2)"
proof
  assume a: "at_most_twice xs"
  show "\<forall>y. count_list xs y \<le> 2"
  proof
    fix y
    show "count_list xs y \<le> 2"
    proof (cases "y \<in> set xs")
      case True
      with a show ?thesis by (simp add: at_most_twice_def list_all_iff)
    next
      case False
      then show ?thesis by (simp add: count_list_0_iff)
    qed
  qed
next
  assume "\<forall>y. count_list xs y \<le> 2"
  then show "at_most_twice xs" by (simp add: at_most_twice_def list_all_iff)
qed

lemma equal_cells_count: "length (filter (\<lambda>y. y = x) xs) = count_list xs x"
  by (induction xs) simp_all

lemma repeats_pairs_twice: "at_most_twice xs \<Longrightarrow> repeats xs = equal_pairs xs"
  unfolding at_most_twice_all
proof (induction xs)
  case Nil
  then show ?case by (simp add: repeats_def)
next
  case (Cons x xs)
  have tail: "\<forall>y. count_list xs y \<le> 2"
  proof
    fix y
    have "count_list xs y \<le> count_list (x # xs) y" by simp
    also have "\<dots> \<le> 2" using Cons.prems by blast
    finally show "count_list xs y \<le> 2" .
  qed
  have "count_list (x # xs) x \<le> 2" using Cons.prems by blast
  then have one: "count_list xs x \<le> 1" by simp
  have "(if x \<in> set xs then 1 else 0) = count_list xs x"
  proof (cases "x \<in> set xs")
    case True
    then have "count_list xs x \<noteq> 0" by (simp add: count_list_0_iff)
    with one True show ?thesis by simp
  next
    case False
    then show ?thesis by (simp add: count_list_0_iff)
  qed
  with Cons.IH [OF tail] show ?case
    by (simp add: repeats_Cons equal_cells_count)
qed

lemma sum_list_map_eq:
  "(\<And>x. x \<in> set xs \<Longrightarrow> f x = (g x :: nat)) \<Longrightarrow> sum_list (map f xs) = sum_list (map g xs)"
  by (induction xs) auto

lemma countConflicts_pairs_twice:
  assumes "lines_at_most_twice st"
  shows "countConflicts st = conflict_pairs st"
proof -
  have rows: "repeats (rowOf st i) = equal_pairs (rowOf st i)" if "i \<in> set [0..<9]" for i
    using assms that by (intro repeats_pairs_twice) (simp add: lines_at_most_twice_def list_all_iff)
  have cols: "repeats (colOf st j) = equal_pairs (colOf st j)" if "j \<in> set [0..<9]" for j
    using assms that by (intro repeats_pairs_twice) (simp add: lines_at_most_twice_def list_all_iff)
  show ?thesis
    unfolding countConflicts_repeats conflict_pairs_def
    using sum_list_map_eq [of "[0..<9]" "\<lambda>i. repeats (rowOf st i)" "\<lambda>i. equal_pairs (rowOf st i)"]
      sum_list_map_eq [of "[0..<9]" "\<lambda>j. repeats (colOf st j)" "\<lambda>j. equal_pairs (colOf st j)"]
      rows cols by presburger
qed

text \<open>
  C7, amended. \<open>countConflicts\<close> adds up, over the nine rows and the nine columns, the
  cells whose value already occurs earlier in their line (the length of the line minus the
  number of its distinct values). It is at most the number of pairs of equal cells, it is
  that number when no value occurs more than twice in a row or a column, and it is zero
  exactly when that number is.
\<close>

theorem countConflicts_spec:
  assumes "grid9 st"
  shows "countConflicts st =
           sum_list (map (\<lambda>i. repeats (rowOf st i)) [0..<9])
           + sum_list (map (\<lambda>j. repeats (colOf st j)) [0..<9]) \<and>
         countConflicts st \<le> conflict_pairs st \<and>
         (lines_at_most_twice st \<longrightarrow> countConflicts st = conflict_pairs st) \<and>
         (countConflicts st = 0) = (conflict_pairs st = 0)"
proof -
  have le: "countConflicts st \<le> conflict_pairs st"
    unfolding countConflicts_repeats conflict_pairs_def
    by (intro add_mono sum_list_map_le repeats_le_pairs)
  have zero: "(countConflicts st = 0) = (conflict_pairs st = 0)"
    unfolding countConflicts_repeats conflict_pairs_def
    by (simp add: repeats_zero pairs_zero)
  show ?thesis
    using le zero countConflicts_repeats [of st] countConflicts_pairs_twice [of st] by blast
qed

theorem countConflicts_spec_witness:
  "grid9 clashGrid \<and> lines_at_most_twice clashGrid \<and> countConflicts clashGrid = 2 \<and>
   conflict_pairs clashGrid = 2 \<and>
   grid9 onesGrid \<and> countConflicts onesGrid = 144 \<and>
   countConflicts onesGrid \<le> conflict_pairs onesGrid"
proof -
  have g: "grid9 onesGrid"
    by code_simp
  have c: "countConflicts onesGrid = 144"
    by code_simp
  have g2: "grid9 clashGrid"
    by code_simp
  have t: "lines_at_most_twice clashGrid"
    by code_simp
  have c2: "countConflicts clashGrid = 2"
    by code_simp
  show ?thesis
    using countConflicts_spec [OF g] countConflicts_spec [OF g2] g c g2 t c2 by simp
qed

section \<open>The acceptance test\<close>

text \<open>
  At the least temperature, \<open>0.0001\<close>, the exponential of an uphill move underflows, and
  the move is rejected even when \<open>Math.random()\<close> returns 0; at the first temperature
  it is accepted.
\<close>

lemma exp_below: "exp (- real n) * 2 ^ n \<le> 1"
proof -
  have "(2::real) \<le> exp 1"
    using exp_ge_add_one_self [of 1] by simp
  then have "(2::real) ^ n \<le> exp 1 ^ n"
    by (intro power_mono) simp_all
  also have "\<dots> = exp (real n)"
    by (simp add: exp_of_nat_mult [symmetric])
  finally have "(2::real) ^ n \<le> exp (real n)" .
  then have "exp (- real n) * 2 ^ n \<le> exp (- real n) * exp (real n)"
    by (intro mult_left_mono) simp_all
  then show ?thesis
    by (simp add: exp_minus)
qed

lemma Math_exp_underflow: "x \<le> - 1076 \<Longrightarrow> Math_exp x = 0"
proof -
  assume x: "x \<le> - 1076"
  have "exp x \<le> exp (- real 1076)"
    using x by simp
  then have "exp x * 2 ^ 1076 \<le> exp (- real 1076) * 2 ^ 1076"
    by (intro mult_right_mono) simp_all
  also have "\<dots> \<le> 1" by (rule exp_below)
  finally have "exp x * (2 ^ 1075 * 2) \<le> 1" by simp
  moreover have "0 < exp x * 2 ^ 1075" by simp
  ultimately have "exp x * 2 ^ 1075 < 1" by linarith
  then show ?thesis by (simp add: Math_exp_def)
qed

lemma metropolis_cold: "\<not> metropolis 1 (1 / 10000) 0"
  using Math_exp_underflow [of "- 10000"] by (simp add: metropolis_def)

lemma metropolis_warm: "metropolis 1 1 0"
proof -
  have "exp (- 1 :: real) * 2 ^ 1075 \<ge> 1"
  proof -
    have "exp (1::real) \<le> 3"
      using exp_le by simp
    then have "exp (1::real) \<le> 2 ^ 1075"
      by (rule order_trans) simp
    then have "exp (- 1 :: real) * exp 1 \<le> exp (- 1) * 2 ^ 1075"
      by (intro mult_left_mono) simp_all
    then show ?thesis by (simp add: exp_minus)
  qed
  then show ?thesis
    by (simp add: metropolis_def Math_exp_def)
qed

section \<open>Claims about the metrics of the annealing search\<close>

lemma sa_move_counts:
  assumes "sa_move rnd s (s\<lparr>met := (met s)\<lparr>iterations := iterations (met s) + 1\<rparr>\<rparr>) a c = (s', b)"
  shows "iterations (met s') = iterations (met s) + 1 \<and>
         fewSkips s' = fewSkips s \<and> sameSkips s' = sameSkips s \<and> moves s' = moves s + 1 \<and>
         nodesExpanded (met s') = nodesExpanded (met s) \<and>
         childrenGenerated (met s') = childrenGenerated (met s) \<and>
         maxDepth (met s') = maxDepth (met s)"
  using assms by (auto simp add: sa_move_def Let_def)

lemma sa_step_counts:
  assumes "sa_step rnd fx s = (s', b)"
  shows "iterations (met s') = iterations (met s) + 1 \<and>
         fewSkips s' + sameSkips s' + moves s' = fewSkips s + sameSkips s + moves s + 1 \<and>
         nodesExpanded (met s') = nodesExpanded (met s) \<and>
         childrenGenerated (met s') = childrenGenerated (met s) \<and>
         maxDepth (met s') = maxDepth (met s)"
proof -
  define cs where "cs = freeCells fx (nat \<lfloor>rnd (drawn s) * 3\<rfloor>) (nat \<lfloor>rnd (drawn s + 1) * 3\<rfloor>)"
  define x where "x = cs ! nat \<lfloor>rnd (drawn s + 2) * real (length cs)\<rfloor>"
  define y where "y = cs ! nat \<lfloor>rnd (drawn s + 3) * real (length cs)\<rfloor>"
  consider (few) "length cs < 2" | (same) "\<not> length cs < 2" "x = y"
    | (move) "\<not> length cs < 2" "x \<noteq> y"
    by blast
  then show ?thesis
  proof cases
    case few
    then have "s' = s\<lparr>met := (met s)\<lparr>iterations := iterations (met s) + 1\<rparr>,
                       drawn := drawn s + 2, fewSkips := fewSkips s + 1\<rparr>"
      using assms unfolding cs_def by (simp add: sa_step_def Let_def)
    then show ?thesis by simp
  next
    case same
    then have "s' = s\<lparr>met := (met s)\<lparr>iterations := iterations (met s) + 1\<rparr>,
                       drawn := drawn s + 4, sameSkips := sameSkips s + 1\<rparr>"
      using assms unfolding cs_def x_def y_def by (simp add: sa_step_def Let_def)
    then show ?thesis by simp
  next
    case move
    then have "sa_move rnd s (s\<lparr>met := (met s)\<lparr>iterations := iterations (met s) + 1\<rparr>\<rparr>) x y
               = (s', b)"
      using assms unfolding cs_def x_def y_def by (simp add: sa_step_def Let_def)
    from sa_move_counts [OF this] show ?thesis by simp
  qed
qed

lemma sa_loop_counts:
  assumes "sa_loop rnd fx n s = (res, s')"
    and "iterations (met s) = fewSkips s + sameSkips s + moves s"
  shows "iterations (met s') = fewSkips s' + sameSkips s' + moves s' \<and>
         iterations (met s') \<le> iterations (met s) + n \<and>
         (res = None \<longrightarrow> iterations (met s') = iterations (met s) + n) \<and>
         nodesExpanded (met s') = nodesExpanded (met s) \<and>
         childrenGenerated (met s') = childrenGenerated (met s) \<and>
         maxDepth (met s') = maxDepth (met s)"
  using assms
proof (induction n arbitrary: s)
  case 0
  then show ?case by (auto split: if_splits)
next
  case (Suc n)
  show ?case
  proof (cases "currentConflicts s > 0")
    case False
    with Suc.prems show ?thesis by auto
  next
    case True
    obtain s1 b where step: "sa_step rnd fx s = (s1, b)"
      by (cases "sa_step rnd fx s")
    note c = sa_step_counts [OF step]
    show ?thesis
    proof (cases b)
      case True
      with Suc.prems step \<open>currentConflicts s > 0\<close> have "res = Some (current s1)" "s' = s1"
        by auto
      with c Suc.prems(2) show ?thesis by simp
    next
      case False
      with Suc.prems step \<open>currentConflicts s > 0\<close> have run: "sa_loop rnd fx n s1 = (res, s')"
        by auto
      have inv: "iterations (met s1) = fewSkips s1 + sameSkips s1 + moves s1"
        using c Suc.prems(2) by simp
      from Suc.IH [OF run inv] c show ?thesis by auto
    qed
  qed
qed

text \<open>
  C9, amended. After \<open>simulatedAnnealing\<close> returns, the iteration counter is the number
  of loop steps that were entered: the steps that ended at either \<open>continue\<close> and the
  steps that built a swap. It is at most \<open>maxSteps\<close>, and it is \<open>maxSteps\<close> when the
  result is \<open>null\<close>. The other three counters stay at zero.
\<close>

theorem annealing_metrics:
  assumes "simulatedAnnealing rnd st fx maxSteps = (res, s)"
  shows "iterations (met s) = fewSkips s + sameSkips s + moves s \<and>
         iterations (met s) \<le> maxSteps \<and>
         (res = None \<longrightarrow> iterations (met s) = maxSteps) \<and>
         nodesExpanded (met s) = 0 \<and> childrenGenerated (met s) = 0 \<and> maxDepth (met s) = 0"
proof -
  obtain cur k where seed: "randomCompleteAssignment rnd st = (cur, k)"
    by (cases "randomCompleteAssignment rnd st")
  define s0 where "s0 = \<lparr>current = cur, currentConflicts = countConflicts cur, temperature = 1,
                     drawn = k, met = reset, fewSkips = 0, sameSkips = 0, moves = 0\<rparr>"
  have s0: "iterations (met s0) = 0" "fewSkips s0 + sameSkips s0 + moves s0 = 0"
    "nodesExpanded (met s0) = 0" "childrenGenerated (met s0) = 0" "maxDepth (met s0) = 0"
    by (simp_all add: s0_def reset_def)
  show ?thesis
  proof (cases "currentConflicts s0 = 0")
    case True
    with assms seed have "s = s0" "res = Some (current s0)"
      by (auto simp add: simulatedAnnealing_def s0_def Let_def)
    with s0 show ?thesis by simp
  next
    case False
    with assms seed have "sa_loop rnd fx maxSteps s0 = (res, s)"
      by (simp add: simulatedAnnealing_def s0_def Let_def)
    from sa_loop_counts [OF this] s0 show ?thesis by auto
  qed
qed

lemma conflicts_clash: "countConflicts clashGrid = 2"
  by code_simp

lemma free_allFixed: "freeCells allFixed 0 0 = []"
  by code_simp

lemma step_clash:
  "sa_step zeroRng allFixed s =
     (s\<lparr>met := (met s)\<lparr>iterations := iterations (met s) + 1\<rparr>,
        drawn := drawn s + 2, fewSkips := fewSkips s + 1\<rparr>, False)"
  by (simp add: sa_step_def Let_def zeroRng_def free_allFixed)

lemma seed_clash: "randomCompleteAssignment zeroRng clashGrid = (clashGrid, 0)"
  by code_simp

lemma run_clash:
  "simulatedAnnealing zeroRng clashGrid allFixed 3 =
     (None, \<lparr>current = clashGrid, currentConflicts = 2, temperature = 1, drawn = 6,
             met = \<lparr>nodesExpanded = 0, childrenGenerated = 0, maxDepth = 0, iterations = 3\<rparr>,
             fewSkips = 3, sameSkips = 0, moves = 0\<rparr>)"
  by (simp add: simulatedAnnealing_def seed_clash conflicts_clash Let_def step_clash
      eval_nat_numeral reset_def)

text \<open>
  C9 as stated fails: with every cell fixed, each of the three steps of this run ends at the
  first \<open>continue\<close> (no free cell in the block), no swap is built, and the iteration
  counter is 3 all the same.
\<close>

theorem annealing_skips_counterexample:
  "iterations (met (snd (simulatedAnnealing zeroRng clashGrid allFixed 3))) = 3 \<and>
   moves (snd (simulatedAnnealing zeroRng clashGrid allFixed 3)) = 0 \<and>
   sameSkips (snd (simulatedAnnealing zeroRng clashGrid allFixed 3)) = 0 \<and>
   fewSkips (snd (simulatedAnnealing zeroRng clashGrid allFixed 3)) = 3"
  by (simp add: run_clash)

theorem annealing_metrics_witness:
  "fst (simulatedAnnealing zeroRng clashGrid allFixed 3) = None \<and>
   iterations (met (snd (simulatedAnnealing zeroRng clashGrid allFixed 3))) = 3 \<and>
   nodesExpanded (met (snd (simulatedAnnealing zeroRng clashGrid allFixed 3))) = 0"
proof -
  have run: "simulatedAnnealing zeroRng clashGrid allFixed 3
             = (fst (simulatedAnnealing zeroRng clashGrid allFixed 3),
                snd (simulatedAnnealing zeroRng clashGrid allFixed 3))"
    by simp
  have none: "fst (simulatedAnnealing zeroRng clashGrid allFixed 3) = None"
    by (simp add: run_clash)
  from annealing_metrics [OF run] none show ?thesis by simp
qed

section \<open>Claims about the forward check\<close>

lemma hasEmptyDomain_iff:
  "hasEmptyDomain newState dm =
     (\<exists>r<length dm. \<exists>c<length (dm ! r). newState ! r ! c = None \<and> dm ! r ! c = [])"
  by (simp add: hasEmptyDomain_def list_ex_iff Bex_def)

lemma hasEmptyDomain_grid9:
  assumes "grid9 dm"
  shows "hasEmptyDomain newState dm = (\<exists>r<9. \<exists>c<9. newState ! r ! c = None \<and> dm ! r ! c = [])"
proof -
  have len: "length dm = 9" and rows: "\<And>i. i < 9 \<Longrightarrow> length (dm ! i) = 9"
    using grid9_dims [OF assms] by simp_all
  show ?thesis
    unfolding hasEmptyDomain_iff len
  proof (intro iffI; elim exE conjE)
    fix r c
    assume "r < 9" "c < length (dm ! r)" "newState ! r ! c = None" "dm ! r ! c = []"
    then show "\<exists>r<9. \<exists>c<9. newState ! r ! c = None \<and> dm ! r ! c = []"
      using rows [of r] by (intro exI [of _ r] conjI exI [of _ c]) simp_all
  next
    fix r c :: nat
    assume "r < 9" "c < 9" "newState ! r ! c = None" "dm ! r ! c = []"
    then show "\<exists>r<9. \<exists>c<length (dm ! r). newState ! r ! c = None \<and> dm ! r ! c = []"
      using rows [of r] by (intro exI [of _ r] conjI exI [of _ c]) simp_all
  qed
qed

lemma forwarding_child_sound:
  assumes "grid9 (domain (problem par))" "row (lastAssigned par) < 9"
    and "ch \<in> set (forwarding_child par np v)"
  shows "no_empty_domain ch"
proof -
  let ?ns = "upd2 (state (problem par)) (row (lastAssigned par)) (col (lastAssigned par)) (Some v)"
  let ?dm = "updateDomain (domain (problem par)) (lastAssigned par) v"
  have g: "grid9 ?dm"
    using assms(1,2) by (rule updateDomain_grid9)
  from assms(3) have ok: "\<not> hasEmptyDomain ?ns ?dm"
    by (auto simp add: forwarding_child_def Let_def split: if_splits)
  from assms(3) ok have "state (problem ch) = ?ns \<and> domain (problem ch) = ?dm"
    by (auto simp add: forwarding_child_def Let_def mkChild_def split: option.splits)
  moreover from ok have "\<forall>r<9. \<forall>c<9. ?ns ! r ! c = None \<longrightarrow> ?dm ! r ! c \<noteq> []"
    unfolding hasEmptyDomain_grid9 [OF g] by blast
  ultimately show ?thesis
    by (simp add: no_empty_domain_def)
qed

lemma forwarding_child_pruned:
  assumes "grid9 (domain (problem par))" "row (lastAssigned par) < 9"
    and "r < 9" "c < 9"
    and "upd2 (state (problem par)) (row (lastAssigned par)) (col (lastAssigned par)) (Some v)
           ! r ! c = None"
    and "updateDomain (domain (problem par)) (lastAssigned par) v ! r ! c = []"
  shows "forwarding_child par np v = []"
proof -
  have g: "grid9 (updateDomain (domain (problem par)) (lastAssigned par) v)"
    using assms(1,2) by (rule updateDomain_grid9)
  have "hasEmptyDomain
          (upd2 (state (problem par)) (row (lastAssigned par)) (col (lastAssigned par)) (Some v))
          (updateDomain (domain (problem par)) (lastAssigned par) v)"
    unfolding hasEmptyDomain_grid9 [OF g] using assms(3-) by blast
  then show ?thesis
    by (simp add: forwarding_child_def Let_def)
qed

lemma mrv_step_range:
  "i < 9 \<Longrightarrow> j < 9 \<Longrightarrow> inside9 (snd s) \<Longrightarrow> inside9 (snd (mrv_step p i j s))"
  by (cases s) (simp add: mrv_step_def Let_def inside9_def)

lemma mrv_row_range:
  assumes "i < 9" "inside9 (snd s)"
  shows "inside9 (snd (mrv_row p i s))"
  unfolding mrv_row_def
proof (rule fold_invariant [where Q = "\<lambda>j. j < 9" and P = "\<lambda>s. inside9 (snd s)"])
  show "\<And>x. x \<in> set [0..<9] \<Longrightarrow> x < 9" by simp
  show "inside9 (snd s)" by (rule assms(2))
  show "\<And>x s. x < 9 \<Longrightarrow> inside9 (snd s) \<Longrightarrow> inside9 (snd (mrv_step p i x s))"
    using assms(1) by (rule mrv_step_range)
qed

lemma getMRVPosition_range:
  assumes "getMRVPosition p = Some q"
  shows "row q < 9 \<and> col q < 9"
proof -
  have "inside9 (snd (fold (mrv_row p) [0..<9] (None, None)))"
  proof (rule fold_invariant [where Q = "\<lambda>i. i < 9" and P = "\<lambda>s. inside9 (snd s)"])
    show "\<And>x. x \<in> set [0..<9] \<Longrightarrow> x < 9" by simp
    show "inside9 (snd (None, None))" by (simp add: inside9_def)
    show "\<And>x s. x < 9 \<Longrightarrow> inside9 (snd s) \<Longrightarrow> inside9 (snd (mrv_row p x s))"
      by (rule mrv_row_range)
  qed
  with assms show ?thesis
    by (simp add: getMRVPosition_def inside9_def)
qed

lemma mrv_lcv_child_sound:
  assumes "grid9 (domain (problem par))" "row np < 9"
    and "ch \<in> set (mrv_lcv_child par np v)"
  shows "no_empty_domain ch"
proof -
  let ?ns = "upd2 (state (problem par)) (row np) (col np) (Some v)"
  let ?dm = "updateDomain (domain (problem par)) np v"
  have g: "grid9 ?dm"
    using assms(1,2) by (rule updateDomain_grid9)
  from assms(3) have ok: "\<not> hasEmptyDomain ?ns ?dm"
    by (auto simp add: mrv_lcv_child_def Let_def split: if_splits)
  from assms(3) ok have "state (problem ch) = ?ns \<and> domain (problem ch) = ?dm"
    by (auto simp add: mrv_lcv_child_def Let_def)
  moreover from ok have "\<forall>r<9. \<forall>c<9. ?ns ! r ! c = None \<longrightarrow> ?dm ! r ! c \<noteq> []"
    unfolding hasEmptyDomain_grid9 [OF g] by blast
  ultimately show ?thesis
    by (simp add: no_empty_domain_def)
qed

lemma mrv_lcv_child_pruned:
  assumes "grid9 (domain (problem par))" "row np < 9"
    and "r < 9" "c < 9"
    and "upd2 (state (problem par)) (row np) (col np) (Some v) ! r ! c = None"
    and "updateDomain (domain (problem par)) np v ! r ! c = []"
  shows "mrv_lcv_child par np v = []"
proof -
  have g: "grid9 (updateDomain (domain (problem par)) np v)"
    using assms(1,2) by (rule updateDomain_grid9)
  have "hasEmptyDomain (upd2 (state (problem par)) (row np) (col np) (Some v))
          (updateDomain (domain (problem par)) np v)"
    unfolding hasEmptyDomain_grid9 [OF g] using assms(3-) by blast
  then show ?thesis
    by (simp add: mrv_lcv_child_def Let_def)
qed


theorem forward_checking_children:
  assumes "grid9 (state (problem par))" "grid9 (domain (problem par))"
  shows "(row (lastAssigned par) < 9 \<and> col (lastAssigned par) < 9 \<longrightarrow>
            (\<forall>ch \<in> set (fst (getChildren_forwarding par m)). no_empty_domain ch) \<and>
            (\<forall>v np. (\<exists>r<9. \<exists>c<9.
                  upd2 (state (problem par)) (row (lastAssigned par)) (col (lastAssigned par))
                    (Some v) ! r ! c = None \<and>
                  updateDomain (domain (problem par)) (lastAssigned par) v ! r ! c = []) \<longrightarrow>
               forwarding_child par np v = [])) \<and>
         (\<forall>ch \<in> set (fst (getChildren_MRV_LCV par m)). no_empty_domain ch) \<and>
         (\<forall>v np. getMRVPosition (problem par) = Some np \<and>
             (\<exists>r<9. \<exists>c<9.
                upd2 (state (problem par)) (row np) (col np) (Some v) ! r ! c = None \<and>
                updateDomain (domain (problem par)) np v ! r ! c = []) \<longrightarrow>
             mrv_lcv_child par np v = [])"
proof (intro conjI impI ballI allI)
  fix ch
  assume "row (lastAssigned par) < 9 \<and> col (lastAssigned par) < 9"
    and "ch \<in> set (fst (getChildren_forwarding par m))"
  then show "no_empty_domain ch"
    using forwarding_child_sound [OF assms(2)]
    by (auto simp add: getChildren_forwarding_def Let_def)
next
  fix v np
  assume "row (lastAssigned par) < 9 \<and> col (lastAssigned par) < 9"
    and "\<exists>r<9. \<exists>c<9.
           upd2 (state (problem par)) (row (lastAssigned par)) (col (lastAssigned par))
             (Some v) ! r ! c = None \<and>
           updateDomain (domain (problem par)) (lastAssigned par) v ! r ! c = []"
  then show "forwarding_child par np v = []"
    using forwarding_child_pruned [OF assms(2)] by blast
next
  fix ch
  assume ch: "ch \<in> set (fst (getChildren_MRV_LCV par m))"
  show "no_empty_domain ch"
  proof (cases "getMRVPosition (problem par)")
    case None
    with ch show ?thesis by (simp add: getChildren_MRV_LCV_def)
  next
    case (Some np)
    with ch obtain v where "ch \<in> set (mrv_lcv_child par np v)"
      by (auto simp add: getChildren_MRV_LCV_def Let_def)
    with getMRVPosition_range [OF Some] show ?thesis
      using mrv_lcv_child_sound [OF assms(2)] by blast
  qed
next
  fix v np
  assume h: "getMRVPosition (problem par) = Some np \<and>
             (\<exists>r<9. \<exists>c<9.
                upd2 (state (problem par)) (row np) (col np) (Some v) ! r ! c = None \<and>
                updateDomain (domain (problem par)) np v ! r ! c = [])"
  then have "row np < 9" using getMRVPosition_range by blast
  with h show "mrv_lcv_child par np v = []"
    using mrv_lcv_child_pruned [OF assms(2)] by blast
qed

theorem forward_checking_children_witness:
  "length (fst (getChildren_forwarding twoEmptyNode reset)) = 1 \<and>
   list_all no_empty_domain (fst (getChildren_forwarding twoEmptyNode reset)) \<and>
   forwarding_child twoEmptyNode (Some \<lparr>row = 8, col = 8\<rparr>) 9 = [] \<and>
   length (fst (getChildren_MRV_LCV twoEmptyNode reset)) = 1 \<and>
   list_all no_empty_domain (fst (getChildren_MRV_LCV twoEmptyNode reset)) \<and>
   getMRVPosition (problem twoNinesNode) = Some \<lparr>row = 8, col = 7\<rparr> \<and>
   mrv_lcv_child twoNinesNode \<lparr>row = 8, col = 7\<rparr> 9 = []"
proof -
  have g: "grid9 (state (problem twoEmptyNode))" "grid9 (domain (problem twoEmptyNode))"
    "grid9 (state (problem twoNinesNode))" "grid9 (domain (problem twoNinesNode))"
    by code_simp+
  have la: "row (lastAssigned twoEmptyNode) < 9 \<and> col (lastAssigned twoEmptyNode) < 9"
    by code_simp
  have n1: "length (fst (getChildren_forwarding twoEmptyNode reset)) = 1"
    by code_simp
  have n2: "length (fst (getChildren_MRV_LCV twoEmptyNode reset)) = 1"
    by code_simp
  have e1: "upd2 (state (problem twoEmptyNode)) (row (lastAssigned twoEmptyNode))
              (col (lastAssigned twoEmptyNode)) (Some 9) ! 8 ! 8 = None \<and>
            updateDomain (domain (problem twoEmptyNode)) (lastAssigned twoEmptyNode) 9 ! 8 ! 8 = []"
    by code_simp
  have x1: "\<exists>r<9. \<exists>c<9.
      upd2 (state (problem twoEmptyNode)) (row (lastAssigned twoEmptyNode))
        (col (lastAssigned twoEmptyNode)) (Some 9) ! r ! c = None \<and>
      updateDomain (domain (problem twoEmptyNode)) (lastAssigned twoEmptyNode) 9 ! r ! c = []"
    using e1 by (intro exI [of _ 8] conjI) simp_all
  have mrv: "getMRVPosition (problem twoNinesNode) = Some \<lparr>row = 8, col = 7\<rparr>"
    by code_simp
  have e2: "upd2 (state (problem twoNinesNode)) (row \<lparr>row = 8, col = 7\<rparr>)
              (col \<lparr>row = 8, col = 7\<rparr>) (Some 9) ! 8 ! 8 = None \<and>
            updateDomain (domain (problem twoNinesNode)) \<lparr>row = 8, col = 7\<rparr> 9 ! 8 ! 8 = []"
    by code_simp
  have x2: "getMRVPosition (problem twoNinesNode) = Some \<lparr>row = 8, col = 7\<rparr> \<and>
    (\<exists>r<9. \<exists>c<9.
      upd2 (state (problem twoNinesNode)) (row \<lparr>row = 8, col = 7\<rparr>)
        (col \<lparr>row = 8, col = 7\<rparr>) (Some 9) ! r ! c = None \<and>
      updateDomain (domain (problem twoNinesNode)) \<lparr>row = 8, col = 7\<rparr> 9 ! r ! c = [])"
    using e2 mrv by (intro exI [of _ 8] conjI) simp_all
  note a = forward_checking_children [OF g(1,2), of reset]
  note b = forward_checking_children [OF g(3,4), of reset]
  note fw = a [THEN conjunct1, THEN mp, OF la]
  have c1: "list_all no_empty_domain (fst (getChildren_forwarding twoEmptyNode reset))"
    using fw [THEN conjunct1] by (simp add: list_all_iff)
  have c2: "forwarding_child twoEmptyNode (Some \<lparr>row = 8, col = 8\<rparr>) 9 = []"
    by (rule fw [THEN conjunct2, THEN spec, THEN spec, THEN mp, OF x1])
  have c3: "list_all no_empty_domain (fst (getChildren_MRV_LCV twoEmptyNode reset))"
    using a [THEN conjunct2, THEN conjunct1] by (simp add: list_all_iff)
  have c4: "mrv_lcv_child twoNinesNode \<lparr>row = 8, col = 7\<rparr> 9 = []"
    by (rule b [THEN conjunct2, THEN conjunct2, THEN spec, THEN spec, THEN mp, OF x2])
  show ?thesis
    using n1 n2 mrv c1 c2 c3 c4 by simp
qed

section \<open>The least-constraining-value order\<close>

text \<open>
  C8 fails on the code. \<open>getLCV\<close> counts the cells of the row, of the column and of the
  block in three separate passes, so an empty cell that shares the block and the row (or
  the column) of the position is counted twice, and the position itself three times. On
  \<open>lcvProblem\<close> at the cell the MRV rule selects, the values 3 and 7 both eliminate 12
  entries from peers and the claimed order keeps 3 before 7; the code counts 18 for 3 and 17
  for 7 and returns 7 first.
\<close>

theorem getLCV_counts_overlap_twice:
  "getLCV lcvProblem \<lparr>row = 3, col = 2\<rparr> = [6, 7, 3, 4, 9] \<and>
   getLCV_claimed lcvProblem \<lparr>row = 3, col = 2\<rparr> = [6, 3, 4, 7, 9] \<and>
   lcv_count lcvProblem \<lparr>row = 3, col = 2\<rparr> 3 = 18 \<and>
   eliminated lcvProblem \<lparr>row = 3, col = 2\<rparr> 3 = 12 \<and>
   lcv_count lcvProblem \<lparr>row = 3, col = 2\<rparr> 7 = 17 \<and>
   eliminated lcvProblem \<lparr>row = 3, col = 2\<rparr> 7 = 12 \<and>
   getMRVPosition lcvProblem = Some \<lparr>row = 3, col = 2\<rparr>"
  by code_simp

section \<open>Grids without empty cells\<close>

subsection \<open>The scan for the next empty cell\<close>


lemma scan_cols_None:
  "(\<And>k. k < sz \<Longrightarrow> \<not> is_null st i k) \<Longrightarrow> scan_cols st sz i j = None"
proof (induction st sz i j rule: scan_cols.induct)
  case (1 st sz i j)
  show ?case
  proof (cases "j < sz")
    case False
    then show ?thesis by (subst scan_cols.simps) simp
  next
    case True
    with "1.prems" have n: "\<not> is_null st i j" by simp
    have "scan_cols st sz i (Suc j) = None"
      using "1.IH" [OF True n] "1.prems" by simp
    with True n show ?thesis by (subst scan_cols.simps) simp
  qed
qed


lemma scan_rows_None:
  "(\<And>r k. r < sz \<Longrightarrow> k < sz \<Longrightarrow> \<not> is_null st r k) \<Longrightarrow>
   scan_rows st sz startRow startCol i = None"
proof (induction st sz startRow startCol i rule: scan_rows.induct)
  case (1 st sz startRow startCol i)
  show ?case
  proof (cases "i < sz")
    case False
    then show ?thesis by (subst scan_rows.simps) simp
  next
    case True
    have none: "scan_cols st sz i (if i = startRow then startCol else 0) = None"
      using "1.prems" True by (intro scan_cols_None) simp
    have "scan_rows st sz startRow startCol (Suc i) = None"
      using "1.IH" [OF True none] "1.prems" by simp
    with True none show ?thesis by (subst scan_rows.simps) simp
  qed
qed


lemma getNextPosition_full:
  assumes "grid9 st" "full_grid st"
  shows "getNextPosition st cur = None"
proof -
  have "\<not> is_null st r k" if "r < length st" "k < length st" for r k
    using that assms grid9_dims [of st] by (simp add: is_null_def full_grid_def)
  then show ?thesis
    by (simp add: getNextPosition_def Let_def scan_rows_None)
qed


subsection \<open>The MRV cell of a full grid\<close>

lemma mrv_step_filled: "state p ! i ! j \<noteq> None \<Longrightarrow> mrv_step p i j s = s"
  by (cases s) (auto simp add: mrv_step_def)

lemma getMRVPosition_full:
  assumes "full_grid (state p)"
  shows "getMRVPosition p = None"
proof -
  have row_id: "mrv_row p i s = s" if "i < 9" for i s
    unfolding mrv_row_def
    by (rule fold_invariant [where Q = "\<lambda>j. j < 9" and P = "\<lambda>t. t = s"])
       (use that assms in \<open>auto simp add: mrv_step_filled full_grid_def\<close>)
  have "fold (mrv_row p) [0..<9] (None, None) = (None, None)"
    by (rule fold_invariant [where Q = "\<lambda>i. i < 9" and P = "\<lambda>t. t = (None, None)"])
       (auto simp add: row_id)
  then show ?thesis
    by (simp add: getMRVPosition_def)
qed

section \<open>What the nodes of a search satisfy\<close>

subsection \<open>Initialisation\<close>






lemma initiate_fields:
  "state (initiate st) = st" "domain (initiate st) = fst (inititationHelper st)"
  by (simp_all add: initiate_def split: prod.splits)


subsection \<open>Expansion keeps the shape\<close>







section \<open>Soundness of the search loop\<close>

subsection \<open>The search loop returns goals only\<close>


section \<open>Blocks and complete lines\<close>

subsection \<open>A goal on digits is a solved grid\<close>




lemma blockCells_set:
  "set (blockCells br bc) = {(r, c). \<exists>i<3. \<exists>j<3. r = br * 3 + i \<and> c = bc * 3 + j}"
  by (auto simp add: blockCells_def)




section \<open>Goals are solved grids\<close>





lemma blockCells_inside:
  assumes "br < 3" "bc < 3" "(r, c) \<in> set (blockCells br bc)"
  shows "r < 9 \<and> c < 9"
  using assms by (auto simp add: blockCells_set)





subsection \<open>The first MRV cell\<close>




lemma initCell_lengths:
  "length (fst (initCell st i j df)) = length (fst df)"
  "length (fst (initCell st i j df) ! k) = length (fst df ! k)"
  by (cases df; simp add: initCell_def)+


lemma init_cells_lengths:
  "length (fst (init_cells st cs df)) = length (fst df)"
  "length (fst (init_cells st cs df) ! k) = length (fst df ! k)"
  unfolding init_cells_def
  by (induction cs arbitrary: df; simp add: initCell_lengths split: prod.splits)+









subsection \<open>The three entry points\<close>

lemma backtack_full:
  assumes "grid9 st" "full_grid st"
  shows "backtack st = Some (Some (Node (initiate st) None \<lparr>row = 0, col = 0\<rparr>), reset)"
    and "backtack_forward st = Some (Some (Node (initiate st) None \<lparr>row = 0, col = 0\<rparr>), reset)"
    and "backtrack_MRV_LCV st = Some (Some (Node (initiate st) None \<lparr>row = 0, col = 0\<rparr>), reset)"
  using getNextPosition_full [OF assms] getMRVPosition_full [of "initiate st"] assms(2)
  by (simp_all add: backtack_def backtack_forward_def backtrack_MRV_LCV_def Let_def
      initiate_fields)




section \<open>The annealing search on a full grid\<close>

subsection \<open>The seed of a full grid\<close>

lemma fill_block_full:
  "(\<forall>(r, c) \<in> set cs. ns ! r ! c \<noteq> None) \<Longrightarrow> fill_block ns ms idx cs = ns"
  by (induction ns ms idx cs rule: fill_block.induct) auto

lemma assign_block_full:
  assumes "full_grid st" "fst b < 3" "snd b < 3"
  shows "fst (assign_block rnd b (st, k)) = st"
proof -
  obtain br bc where b: "b = (br, bc)" by (cases b)
  have "\<forall>(r, c) \<in> set (blockCells br bc). st ! r ! c \<noteq> None"
    using assms blockCells_inside [of br bc] by (auto simp add: b full_grid_def)
  then show ?thesis
    by (simp add: assign_block_def b Let_def fill_block_full split: prod.splits
        del: filter.simps)
qed

lemma seed_full:
  assumes "full_grid st"
  shows "fst (randomCompleteAssignment rnd st) = st"
proof -
  have "fst (fold (assign_block rnd) bs (st, k)) = st"
    if "\<forall>b \<in> set bs. fst b < 3 \<and> snd b < 3" for bs k
    using that
  proof (induction bs arbitrary: k)
    case Nil
    then show ?case by simp
  next
    case (Cons b bs)
    obtain k' where "assign_block rnd b (st, k) = (st, k')"
      using assign_block_full [OF assms, of b rnd k] Cons.prems
      by (cases "assign_block rnd b (st, k)") auto
    with Cons show ?case by simp
  qed
  then show ?thesis
    by (simp add: randomCompleteAssignment_def)
qed

section \<open>The shape of an annealing step\<close>

subsection \<open>The annealing loop returns grids without counted conflicts\<close>

lemma sa_move_shape:
  assumes "sa_move rnd s s1 x y = (s', b)" "current s1 = current s"
    "currentConflicts s1 = currentConflicts s"
  shows "(current s' = current s \<and> currentConflicts s' = currentConflicts s \<or>
          current s' = swapCells (current s) x y \<and>
          currentConflicts s' = countConflicts (current s')) \<and>
         b = (currentConflicts s' = 0)"
  using assms by (auto simp add: sa_move_def Let_def split: if_splits)

lemma sa_step_shape:
  assumes "sa_step rnd fx s = (s', b)"
  defines "cs \<equiv> freeCells fx (nat \<lfloor>rnd (drawn s) * 3\<rfloor>) (nat \<lfloor>rnd (drawn s + 1) * 3\<rfloor>)"
  defines "x \<equiv> cs ! nat \<lfloor>rnd (drawn s + 2) * real (length cs)\<rfloor>"
  defines "y \<equiv> cs ! nat \<lfloor>rnd (drawn s + 3) * real (length cs)\<rfloor>"
  shows "(current s' = current s \<and> currentConflicts s' = currentConflicts s \<and>
          (b \<longrightarrow> currentConflicts s' = 0)) \<or>
         (2 \<le> length cs \<and> x \<noteq> y \<and> current s' = swapCells (current s) x y \<and>
          currentConflicts s' = countConflicts (current s') \<and>
          (b \<longrightarrow> currentConflicts s' = 0))"
proof -
  consider (few) "length cs < 2" | (same) "\<not> length cs < 2" "x = y"
    | (move) "\<not> length cs < 2" "x \<noteq> y"
    by blast
  then show ?thesis
  proof cases
    case few
    then have "s' = s\<lparr>met := (met s)\<lparr>iterations := iterations (met s) + 1\<rparr>,
                       drawn := drawn s + 2, fewSkips := fewSkips s + 1\<rparr> \<and> \<not> b"
      using assms(1) unfolding cs_def by (simp add: sa_step_def Let_def)
    then show ?thesis by simp
  next
    case same
    then have "s' = s\<lparr>met := (met s)\<lparr>iterations := iterations (met s) + 1\<rparr>,
                       drawn := drawn s + 4, sameSkips := sameSkips s + 1\<rparr> \<and> \<not> b"
      using assms(1) unfolding cs_def x_def y_def by (simp add: sa_step_def Let_def)
    then show ?thesis by simp
  next
    case move
    then have "sa_move rnd s (s\<lparr>met := (met s)\<lparr>iterations := iterations (met s) + 1\<rparr>\<rparr>) x y
               = (s', b)"
      using assms(1) unfolding cs_def x_def y_def by (simp add: sa_step_def Let_def)
    from sa_move_shape [OF this] move show ?thesis by auto
  qed
qed

section \<open>Conflicts counted by the annealing loop\<close>

lemma sa_step_counted:
  assumes "sa_step rnd fx s = (s', b)" "counted s"
  shows "counted s' \<and> (b \<longrightarrow> currentConflicts s' = 0)"
  using sa_step_shape [OF assms(1)] assms(2) by (auto simp add: counted_def)

lemma sa_loop_counted:
  assumes "sa_loop rnd fx n s = (Some g, s')" "counted s"
  shows "countConflicts g = 0"
  using assms
proof (induction n arbitrary: s)
  case 0
  then show ?case by (auto simp add: counted_def split: if_splits)
next
  case (Suc n)
  show ?case
  proof (cases "currentConflicts s > 0")
    case False
    with Suc.prems show ?thesis by (auto simp add: counted_def)
  next
    case True
    obtain s1 b where step: "sa_step rnd fx s = (s1, b)"
      by (cases "sa_step rnd fx s")
    note c = sa_step_counted [OF step Suc.prems(2)]
    show ?thesis
    proof (cases b)
      case True
      with Suc.prems(1) step \<open>currentConflicts s > 0\<close> have "g = current s1"
        by auto
      with c True show ?thesis by (simp add: counted_def)
    next
      case False
      with Suc.prems(1) step \<open>currentConflicts s > 0\<close>
      have "sa_loop rnd fx n s1 = (Some g, s')" by auto
      with Suc.IH c show ?thesis by blast
    qed
  qed
qed

lemma countConflicts_zero_pairs: "(countConflicts st = 0) = (conflict_pairs st = 0)"
  unfolding countConflicts_repeats conflict_pairs_def
  by (simp add: repeats_zero pairs_zero)

lemma annealing_full:
  assumes "full_grid st"
  shows "nodesExpanded (met (snd (simulatedAnnealing rnd st fx maxSteps))) = 0 \<and>
         (fst (simulatedAnnealing rnd st fx maxSteps) = Some st) = (countConflicts st = 0) \<and>
         (countConflicts st = 0 \<longrightarrow>
            iterations (met (snd (simulatedAnnealing rnd st fx maxSteps))) = 0)"
proof -
  obtain k where seed: "randomCompleteAssignment rnd st = (st, k)"
    using seed_full [OF assms, of rnd] by (cases "randomCompleteAssignment rnd st") auto
  define s0 where "s0 = \<lparr>current = st, currentConflicts = countConflicts st, temperature = 1,
                     drawn = k, met = reset, fewSkips = 0, sameSkips = 0, moves = 0\<rparr>"
  show ?thesis
  proof (cases "countConflicts st = 0")
    case True
    then have "simulatedAnnealing rnd st fx maxSteps = (Some st, s0)"
      by (simp add: simulatedAnnealing_def seed Let_def s0_def)
    with True show ?thesis by (simp add: s0_def reset_def)
  next
    case False
    then have run: "simulatedAnnealing rnd st fx maxSteps = sa_loop rnd fx maxSteps s0"
      by (simp add: simulatedAnnealing_def seed Let_def s0_def)
    obtain res s where r: "sa_loop rnd fx maxSteps s0 = (res, s)"
      by (cases "sa_loop rnd fx maxSteps s0")
    have c0: "counted s0" "iterations (met s0) = fewSkips s0 + sameSkips s0 + moves s0"
      "nodesExpanded (met s0) = 0"
      by (simp_all add: s0_def counted_def reset_def)
    have "res \<noteq> Some st"
      using sa_loop_counted [OF _ c0(1)] r False by auto
    moreover have "nodesExpanded (met s) = 0"
      using sa_loop_counts [OF r c0(2)] c0(3) by simp
    ultimately show ?thesis
      using False by (simp add: run r)
  qed
qed

section \<open>Claims about grids without empty cells\<close>

text \<open>
  C2, amended. On a 9x9 grid without empty cells the three backtracking searches return at
  once, with the metrics at their reset values (no node expanded), and the result is a
  success holding the input grid, whether the grid is consistent or not. The annealing
  search expands no node either; it returns the input grid exactly when no row and no
  column holds a value twice, and then without any iteration.
\<close>

theorem full_grid_searches:
  assumes "grid9 st" "full_grid st"
  shows "backtack st = Some (Some (Node (initiate st) None \<lparr>row = 0, col = 0\<rparr>), reset) \<and>
         backtack_forward st = Some (Some (Node (initiate st) None \<lparr>row = 0, col = 0\<rparr>), reset) \<and>
         backtrack_MRV_LCV st = Some (Some (Node (initiate st) None \<lparr>row = 0, col = 0\<rparr>), reset) \<and>
         state (initiate st) = st \<and> nodesExpanded reset = 0 \<and>
         (\<forall>rnd fx maxSteps.
            nodesExpanded (met (snd (simulatedAnnealing rnd st fx maxSteps))) = 0 \<and>
            (fst (simulatedAnnealing rnd st fx maxSteps) = Some st) = (conflict_pairs st = 0) \<and>
            (conflict_pairs st = 0 \<longrightarrow>
               iterations (met (snd (simulatedAnnealing rnd st fx maxSteps))) = 0))"
  using backtack_full [OF assms] annealing_full [OF assms(2)]
  by (simp add: initiate_fields reset_def countConflicts_zero_pairs)

text \<open>
  C2 as stated fails (and so does C1): the grid of eighty-one 1s has no empty cell and is
  not consistent, and \<open>backtack\<close> returns it as a success.
\<close>

theorem full_inconsistent_counterexample:
  "backtack onesGrid = Some (Some (Node (initiate onesGrid) None \<lparr>row = 0, col = 0\<rparr>), reset) \<and>
   state (initiate onesGrid) = onesGrid \<and> \<not> consistent (initiate onesGrid)"
proof -
  have "grid9 onesGrid" "full_grid onesGrid"
    by (code_simp, simp add: onesGrid_def full_grid_def)
  from backtack_full(1) [OF this] show ?thesis
    by (simp add: initiate_fields) code_simp
qed

theorem full_grid_searches_witness:
  "grid9 solvedGrid \<and> full_grid solvedGrid \<and>
   backtack solvedGrid = Some (Some (Node (initiate solvedGrid) None \<lparr>row = 0, col = 0\<rparr>), reset) \<and>
   fst (simulatedAnnealing zeroRng solvedGrid allFixed 3) = Some solvedGrid \<and>
   iterations (met (snd (simulatedAnnealing zeroRng solvedGrid allFixed 3))) = 0"
proof -
  have g: "grid9 solvedGrid" by code_simp
  have f: "full_grid solvedGrid"
    unfolding full_grid_def
  proof (intro allI impI)
    fix i j :: nat assume "i < 9" "j < 9"
    then have "i \<in> set [0..<9]" "j \<in> set [0..<9]" by simp_all
    moreover have "list_all (\<lambda>i. list_all (\<lambda>j. solvedGrid ! i ! j \<noteq> None) [0..<9]) [0..<9]"
      by code_simp
    ultimately show "solvedGrid ! i ! j \<noteq> None"
      unfolding list_all_iff by blast
  qed
  have p: "conflict_pairs solvedGrid = 0" by code_simp
  from full_grid_searches [OF g f] p g f show ?thesis by simp
qed

section \<open>Shuffling and filling a block\<close>

subsection \<open>Random indices\<close>



subsection \<open>The shuffle permutes\<close>



subsection \<open>Filling a block\<close>





section \<open>Seeding one block\<close>

subsection \<open>One block of the seed\<close>






section \<open>The seed of the annealing search\<close>

subsection \<open>Grids whose blocks hold no value twice\<close>







subsection \<open>The seed\<close>




section \<open>The annealing search keeps the blocks\<close>

subsection \<open>Swapping two cells of a block\<close>






subsection \<open>The annealing loop keeps the blocks\<close>




subsection \<open>A seeded grid without counted conflicts is solved\<close>




subsection \<open>The grid that the annealing search returns\<close>


section \<open>Grids with a repeated clue in a block\<close>

subsection \<open>The seed keeps the clues\<close>






subsection \<open>The annealing loop keeps the values of every block\<close>





subsection \<open>A repeated clue of a block stays\<close>




section \<open>A run of the annealing search with one swap\<close>









section \<open>Successes that are not solved\<close>

subsection \<open>A solved grid is consistent\<close>







section \<open>Claims about successful searches\<close>

subsection \<open>Evaluating the predicates on a grid\<close>





subsection \<open>The claim\<close>




section \<open>The propagator and the arrays it is given\<close>

subsection \<open>Stores that keep a store\<close>

lemma kept_refl [simp]: "kept xs xs"
  by (simp add: kept_def)

lemma kept_append [simp]: "kept xs (xs @ ys)"
  by (simp add: kept_def)

lemma kept_length: "kept xs ys \<Longrightarrow> length xs \<le> length ys"
proof -
  assume "kept xs ys"
  then have "length (take (length xs) ys) = length xs"
    by (simp add: kept_def)
  then show ?thesis by simp
qed

lemma kept_nth: "kept xs ys \<Longrightarrow> a < length xs \<Longrightarrow> ys ! a = xs ! a"
  unfolding kept_def by (metis nth_take)

lemma kept_trans: "kept xs ys \<Longrightarrow> kept ys zs \<Longrightarrow> kept xs zs"
proof -
  assume a: "kept xs ys" and b: "kept ys zs"
  have "take (length xs) zs = take (length xs) (take (length ys) zs)"
    using kept_length [OF a] by (simp add: min_def)
  also have "\<dots> = xs"
    using a b by (simp add: kept_def)
  finally show ?thesis by (simp add: kept_def)
qed

lemma kept_update: "kept xs ys \<Longrightarrow> length xs \<le> a \<Longrightarrow> kept xs (ys[a := z])"
  by (simp add: kept_def)

lemma frame_refl [simp]: "frame h h"
  by (simp add: frame_def)

lemma frame_trans: "frame h h1 \<Longrightarrow> frame h1 h2 \<Longrightarrow> frame h h2"
  unfolding frame_def by (blast intro: kept_trans)

lemma cell_of_rows [simp]: "cell_of (h\<lparr>rows := r\<rparr>) = cell_of h"
  by (rule ext) (simp add: cell_of_def split: option.splits)

lemma cell_of_mats [simp]: "cell_of (h\<lparr>mats := r\<rparr>) = cell_of h"
  by (rule ext) (simp add: cell_of_def split: option.splits)

lemma cell_in_rows [simp]: "cell_in (h\<lparr>rows := r\<rparr>) = cell_in h"
  by (rule ext) (simp add: cell_in_def split: option.splits)

lemma cell_in_mats [simp]: "cell_in (h\<lparr>mats := r\<rparr>) = cell_in h"
  by (rule ext) (simp add: cell_in_def split: option.splits)

lemma cell_in_frame: "frame h h' \<Longrightarrow> cell_in h x \<Longrightarrow> cell_in h' x"
  using kept_length [of "cells h" "cells h'"]
  by (cases x) (auto simp add: frame_def cell_in_def)

lemma cell_of_frame: "frame h h' \<Longrightarrow> cell_in h x \<Longrightarrow> cell_of h' x = cell_of h x"
  by (cases x) (auto simp add: frame_def cell_in_def cell_of_def kept_nth)

lemma row_at_frame:
  assumes "frame h h'" "row_at h r"
  shows "row_at h' r"
proof -
  have "rows h' ! r = rows h ! r" "r < length (rows h')"
    using assms kept_length [of "rows h" "rows h'"]
    by (auto simp add: frame_def row_at_def kept_nth)
  with assms show ?thesis
    by (auto simp add: row_at_def list_all_iff intro: cell_in_frame)
qed

lemma read_row_frame:
  assumes "frame h h'" "row_at h r"
  shows "read_row h' r = read_row h r"
proof -
  have "rows h' ! r = rows h ! r"
    using assms by (auto simp add: frame_def row_at_def kept_nth)
  with assms show ?thesis
    by (auto simp add: read_row_def row_at_def list_all_iff intro: cell_of_frame)
qed

lemma matrix_at_frame:
  assumes "frame h h'" "matrix_at h d"
  shows "matrix_at h' d"
proof -
  have "mats h' ! d = mats h ! d" "d < length (mats h')"
    using assms kept_length [of "mats h" "mats h'"]
    by (auto simp add: frame_def matrix_at_def kept_nth)
  with assms show ?thesis
    by (auto simp add: matrix_at_def list_all_iff intro: row_at_frame)
qed

lemma read_matrix_frame:
  assumes "frame h h'" "matrix_at h d"
  shows "read_matrix h' d = read_matrix h d"
proof -
  have "mats h' ! d = mats h ! d"
    using assms by (auto simp add: frame_def matrix_at_def kept_nth)
  with assms show ?thesis
    by (auto simp add: read_matrix_def matrix_at_def list_all_iff intro: read_row_frame)
qed

subsection \<open>The deep copy\<close>

lemma new_cell_frame: "new_cell xs h = (a, h1) \<Longrightarrow> frame h h1"
  by (auto simp add: new_cell_def frame_def)

lemma copy_cells_spec:
  "list_all (cell_in h) xs \<Longrightarrow> copy_cells xs h = (as, h1) \<Longrightarrow>
   frame h h1 \<and> rows h1 = rows h \<and> mats h1 = mats h \<and>
   list_all (cell_in h1) as \<and> map (cell_of h1) as = map (cell_of h) xs"
proof (induction xs arbitrary: h as h1)
  case Nil
  then show ?case by simp
next
  case (Cons x xs)
  from Cons.prems(1) obtain c where x: "x = Some c" and c: "c < length (cells h)"
    by (cases x) (auto simp add: cell_in_def)
  define ha where "ha = h\<lparr>cells := cells h @ [cells h ! c]\<rparr>"
  obtain as' where rest: "copy_cells xs ha = (as', h1)" and as: "as = Some (length (cells h)) # as'"
    using Cons.prems(2) unfolding x ha_def
    by (auto simp add: new_cell_def split: prod.splits)
  have f: "frame h ha"
    by (simp add: ha_def frame_def)
  have "list_all (cell_in ha) xs"
    using Cons.prems(1) f by (auto simp add: list_all_iff intro: cell_in_frame)
  from Cons.IH [OF this rest]
  have ih: "frame ha h1" "rows h1 = rows ha" "mats h1 = mats ha"
    "list_all (cell_in h1) as'" "map (cell_of h1) as' = map (cell_of ha) xs"
    by simp_all
  have new: "cell_in ha (Some (length (cells h)))"
    by (simp add: cell_in_def ha_def)
  have "cell_of h1 (Some (length (cells h))) = cell_of ha (Some (length (cells h)))"
    using ih(1) new by (rule cell_of_frame)
  also have "\<dots> = cell_of h x"
    by (simp add: cell_of_def ha_def x)
  finally have head: "cell_of h1 (Some (length (cells h))) = cell_of h x" .
  have "map (cell_of ha) xs = map (cell_of h) xs"
    using Cons.prems(1) f by (auto simp add: list_all_iff intro: cell_of_frame)
  with ih head show ?case
    using frame_trans [OF f ih(1)] cell_in_frame [OF ih(1) new]
    by (simp add: as ha_def)
qed

lemma copy_rows_spec:
  "list_all (row_at h) rs \<Longrightarrow> copy_rows rs h = (as, h1) \<Longrightarrow>
   frame h h1 \<and> mats h1 = mats h \<and> distinct as \<and>
   list_all (\<lambda>a. length (rows h) \<le> a \<and> row_at h1 a) as \<and>
   map (read_row h1) as = map (read_row h) rs"
proof (induction rs arbitrary: h as h1)
  case Nil
  then show ?case by simp
next
  case (Cons r rs)
  from Cons.prems(1) have r: "row_at h r" by simp
  obtain cs ha where cp: "copy_cells (rows h ! r) h = (cs, ha)"
    by (cases "copy_cells (rows h ! r) h")
  from copy_cells_spec [OF _ cp] r
  have c: "frame h ha" "rows ha = rows h" "mats ha = mats h" "list_all (cell_in ha) cs"
    "map (cell_of ha) cs = map (cell_of h) (rows h ! r)"
    by (simp_all add: row_at_def)
  define hb where "hb = ha\<lparr>rows := rows ha @ [cs]\<rparr>"
  define a where "a = length (rows h)"
  obtain as' where rest: "copy_rows rs hb = (as', h1)" and as: "as = a # as'"
    using Cons.prems(2) cp c(2) unfolding hb_def a_def
    by (auto simp add: new_row_def split: prod.splits)
  have fb: "frame ha hb"
    by (simp add: hb_def frame_def)
  have f: "frame h hb"
    using c(1) fb by (rule frame_trans)
  have "list_all (row_at hb) rs"
    using Cons.prems(1) f by (auto simp add: list_all_iff intro: row_at_frame)
  from Cons.IH [OF this rest]
  have ih: "frame hb h1" "mats h1 = mats hb" "distinct as'"
    "list_all (\<lambda>a. length (rows hb) \<le> a \<and> row_at h1 a) as'"
    "map (read_row h1) as' = map (read_row hb) rs"
    by simp_all
  have new: "row_at hb a"
    using c(4) c(2) by (simp add: row_at_def hb_def a_def)
  have "read_row h1 a = read_row hb a"
    using ih(1) new by (rule read_row_frame)
  also have "\<dots> = map (cell_of ha) cs"
    using c(2) by (simp add: read_row_def hb_def a_def)
  also have "\<dots> = read_row h r"
    using c(5) by (simp add: read_row_def)
  finally have head: "read_row h1 a = read_row h r" .
  have tail: "map (read_row hb) rs = map (read_row h) rs"
    using Cons.prems(1) f by (auto simp add: list_all_iff intro: read_row_frame)
  have len: "length (rows hb) = Suc a"
    using c(2) by (simp add: hb_def a_def)
  have "a \<notin> set as'"
    using ih(4) len by (auto simp add: list_all_iff)
  moreover have "list_all (\<lambda>x. length (rows h) \<le> x \<and> row_at h1 x) as'"
    using ih(4) len by (auto simp add: list_all_iff a_def)
  ultimately show ?case
    using frame_trans [OF f ih(1)] ih head tail row_at_frame [OF ih(1) new] c(3)
    by (simp add: as hb_def a_def)
qed

lemma copy_matrix_spec:
  assumes "matrix_at h d" "copy_matrix d h = (nd, h0)"
  shows "own h h0 nd \<and> read_matrix h0 nd = read_matrix h d"
proof -
  obtain rs h1 where cp: "copy_rows (mats h ! d) h = (rs, h1)"
    by (cases "copy_rows (mats h ! d) h")
  from copy_rows_spec [OF _ cp] assms(1)
  have c: "frame h h1" "mats h1 = mats h" "distinct rs"
    "list_all (\<lambda>a. length (rows h) \<le> a \<and> row_at h1 a) rs"
    "map (read_row h1) rs = map (read_row h) (mats h ! d)"
    by (simp_all add: matrix_at_def)
  from assms(2) cp c(2) have nd: "nd = length (mats h)" and h0: "h0 = h1\<lparr>mats := mats h @ [rs]\<rparr>"
    by (simp_all add: copy_matrix_def new_mat_def)
  have f1: "frame h1 h0"
    using c(2) by (simp add: h0 frame_def)
  have rows: "list_all (\<lambda>a. length (rows h) \<le> a \<and> row_at h0 a) rs"
    using c(4) f1 by (auto simp add: list_all_iff intro: row_at_frame)
  have "map (read_row h0) rs = map (read_row h1) rs"
    using c(4) f1 by (auto simp add: list_all_iff intro: read_row_frame)
  with c(5) have "read_matrix h0 nd = read_matrix h d"
    by (simp add: read_matrix_def nd h0)
  moreover have "own h h0 nd"
    using frame_trans [OF c(1) f1] c(3) rows by (simp add: own_def nd h0)
  ultimately show ?thesis by simp
qed

subsection \<open>Writing into the copy\<close>

lemma own_matrix_at: "own base h nd \<Longrightarrow> matrix_at h nd"
  by (auto simp add: own_def matrix_at_def list_all_iff)

lemma own_frame: "own base h nd \<Longrightarrow> frame base h"
  by (simp add: own_def)

lemma read_matrix_length [simp]: "length (read_matrix h nd) = length (mats h ! nd)"
  by (simp add: read_matrix_def)

lemma read_matrix_nth:
  "i < length (mats h ! nd) \<Longrightarrow> read_matrix h nd ! i = read_row h (mats h ! nd ! i)"
  by (simp add: read_matrix_def)

lemma read_row_length [simp]: "length (read_row h ra) = length (rows h ! ra)"
  by (simp add: read_row_def)

lemma new_cell_own:
  assumes "own base h nd" "new_cell xs h = (a, h1)"
  shows "own base h1 nd \<and> read_matrix h1 nd = read_matrix h nd \<and> a < length (cells h1) \<and>
         cells h1 ! a = xs \<and> rows h1 = rows h \<and> mats h1 = mats h"
proof -
  from assms(2) have a: "a = length (cells h)" and h1: "h1 = h\<lparr>cells := cells h @ [xs]\<rparr>"
    by (simp_all add: new_cell_def)
  have f: "frame h h1"
    by (simp add: h1 frame_def)
  have "own base h1 nd"
    using assms(1) frame_trans [OF _ f] row_at_frame [OF f]
    by (auto simp add: own_def list_all_iff h1)
  moreover have "read_matrix h1 nd = read_matrix h nd"
    using f own_matrix_at [OF assms(1)] by (rule read_matrix_frame)
  ultimately show ?thesis
    by (simp add: a h1)
qed

lemma assign_own:
  assumes "own base h nd" "i < length (mats h ! nd)"
    and "j < length (rows h ! (mats h ! nd ! i))" "a < length (cells h)"
  shows "own base (assign (mats h ! nd ! i) j a h) nd \<and>
         read_matrix (assign (mats h ! nd ! i) j a h) nd
           = upd2 (read_matrix h nd) i j (cells h ! a) \<and>
         mats (assign (mats h ! nd ! i) j a h) = mats h"
proof -
  define ra where "ra = mats h ! nd ! i"
  define h1 where "h1 = assign ra j a h"
  have h1: "h1 = h\<lparr>rows := (rows h)[ra := (rows h ! ra)[j := Some a]]\<rparr>"
    using assms(3) by (simp add: h1_def assign_def put_def ra_def)
  from assms(1) have fr: "frame base h" and nd: "nd < length (mats h)"
    and dist: "distinct (mats h ! nd)"
    and rws: "\<And>r. r \<in> set (mats h ! nd) \<Longrightarrow> length (rows base) \<le> r \<and> row_at h r"
    by (auto simp add: own_def list_all_iff)
  have ra: "ra \<in> set (mats h ! nd)"
    using assms(2) by (simp add: ra_def)
  have "kept (rows base) (rows h1)"
    using fr rws [OF ra] by (simp add: h1 frame_def kept_update)
  then have f1: "frame base h1"
    using fr by (simp add: h1 frame_def)
  have row1: "row_at h1 r" if "r \<in> set (mats h ! nd)" for r
  proof (cases "r = ra")
    case True
    have "set ((rows h ! ra)[j := Some a]) \<subseteq> insert (Some a) (set (rows h ! ra))"
      by (rule set_update_subset_insert)
    moreover have "cell_in h (Some a)" using assms(4) by (simp add: cell_in_def)
    ultimately show ?thesis
      using rws [OF ra] True by (auto simp add: row_at_def h1 list_all_iff)
  next
    case False
    with rws [OF that] show ?thesis
      by (simp add: row_at_def h1)
  qed
  have own1: "own base h1 nd"
    using f1 nd dist rws row1 by (simp add: own_def list_all_iff h1)
  have rd: "read_row h1 (mats h ! nd ! k)
            = (if k = i then (read_row h ra)[j := cells h ! a] else read_row h (mats h ! nd ! k))"
    if "k < length (mats h ! nd)" for k
  proof (cases "k = i")
    case True
    have "ra < length (rows h)"
      using rws [OF ra] by (simp add: row_at_def)
    then show ?thesis
      using True by (simp add: read_row_def h1 ra_def map_update cell_of_def)
  next
    case False
    then have "mats h ! nd ! k \<noteq> ra"
      using dist that assms(2) by (simp add: ra_def nth_eq_iff_index_eq)
    then show ?thesis
      using False by (simp add: read_row_def h1)
  qed
  have "read_matrix h1 nd = upd2 (read_matrix h nd) i j (cells h ! a)"
  proof (rule nth_equalityI)
    show "length (read_matrix h1 nd) = length (upd2 (read_matrix h nd) i j (cells h ! a))"
      by (simp add: h1 upd2_def)
  next
    fix k assume "k < length (read_matrix h1 nd)"
    then have k: "k < length (mats h ! nd)" by (simp add: h1)
    have "read_matrix h1 nd ! k = read_row h1 (mats h ! nd ! k)"
      using k by (simp add: read_matrix_def h1)
    also have "\<dots> = upd2 (read_matrix h nd) i j (cells h ! a) ! k"
      using k assms(2) by (simp add: rd upd2_def read_matrix_nth ra_def)
    finally show "read_matrix h1 nd ! k = upd2 (read_matrix h nd) i j (cells h ! a) ! k" .
  qed
  with own1 show ?thesis
    unfolding h1_def ra_def by (simp add: assign_def)
qed

lemma strike_spec:
  assumes "own base h nd" "strike nd v i j h = (b, h1)"
  shows "own base h1 nd \<and> mats h1 = mats h \<and> b = in_matrix (read_matrix h nd) (i, j) \<and>
         (b \<longrightarrow> read_matrix h1 nd = remove_at (read_matrix h nd) i j v)"
proof (cases "i < length (mats h ! nd)")
  case False
  with assms show ?thesis
    by (simp add: strike_def in_matrix_def)
next
  case i: True
  define ra where "ra = mats h ! nd ! i"
  have row: "row_at h ra"
    using assms(1) i by (simp add: own_def list_all_iff ra_def)
  have len: "length (read_matrix h nd ! i) = length (rows h ! ra)"
    using i by (simp add: read_matrix_nth ra_def)
  show ?thesis
  proof (cases "j < length (rows h ! ra)")
    case False
    with assms i len show ?thesis
      by (simp add: strike_def in_matrix_def element_def ra_def)
  next
    case j: True
    then have "cell_in h (rows h ! ra ! j)"
      using row by (simp add: row_at_def list_all_length)
    then obtain ca where ca: "rows h ! ra ! j = Some ca" "ca < length (cells h)"
      by (cases "rows h ! ra ! j") (simp_all add: cell_in_def)
    have cell: "read_matrix h nd ! i ! j = cells h ! ca"
      using i j ca by (simp add: read_matrix_nth read_row_def cell_of_def ra_def)
    have inm: "in_matrix (read_matrix h nd) (i, j)"
      using i j len by (simp add: in_matrix_def)
    show ?thesis
    proof (cases "v \<in> set (cells h ! ca)")
      case False
      with assms i j ca cell inm show ?thesis
        by (simp add: strike_def element_def ra_def remove_at_def)
    next
      case True
      obtain a ha where nc: "new_cell (filter (\<lambda>x. x \<noteq> v) (cells h ! ca)) h = (a, ha)"
        by (cases "new_cell (filter (\<lambda>x. x \<noteq> v) (cells h ! ca)) h")
      from new_cell_own [OF assms(1) nc]
      have n: "own base ha nd" "read_matrix ha nd = read_matrix h nd" "a < length (cells ha)"
        "cells ha ! a = filter (\<lambda>x. x \<noteq> v) (cells h ! ca)" "rows ha = rows h" "mats ha = mats h"
        by simp_all
      from assms(2) i j ca True nc have res: "b" "h1 = assign ra j a ha"
        by (simp_all add: strike_def element_def ra_def)
      have "own base (assign (mats ha ! nd ! i) j a ha) nd \<and>
            read_matrix (assign (mats ha ! nd ! i) j a ha) nd
              = upd2 (read_matrix ha nd) i j (cells ha ! a) \<and>
            mats (assign (mats ha ! nd ! i) j a ha) = mats ha"
        using n i j by (intro assign_own) (simp_all add: ra_def)
      with n res True cell inm show ?thesis
        by (simp add: ra_def remove_at_def)
    qed
  qed
qed

lemma in_matrix_remove_at [simp]: "in_matrix (remove_at m i j v) = in_matrix m"
  by (rule ext) (simp add: in_matrix_def)

lemma in_matrix_remove_cells [simp]: "in_matrix (remove_cells m cs v) = in_matrix m"
  by (rule ext) (simp add: in_matrix_def)

lemma strike_all_spec:
  "own base h nd \<Longrightarrow> strike_all nd v cs h = (b, h1) \<Longrightarrow>
   own base h1 nd \<and> mats h1 = mats h \<and> b = list_all (in_matrix (read_matrix h nd)) cs \<and>
   (b \<longrightarrow> read_matrix h1 nd = remove_cells (read_matrix h nd) cs v)"
proof (induction cs arbitrary: h)
  case Nil
  then show ?case by (simp add: remove_cells_def)
next
  case (Cons p cs)
  obtain i j where p: "p = (i, j)" by (cases p)
  obtain b0 ha where st: "strike nd v i j h = (b0, ha)"
    by (cases "strike nd v i j h")
  note s = strike_spec [OF Cons.prems(1) st]
  show ?case
  proof (cases b0)
    case False
    with Cons.prems(2) st s show ?thesis
      by (simp add: p)
  next
    case True
    with Cons.prems(2) st have rest: "strike_all nd v cs ha = (b, h1)"
      by (simp add: p)
    from Cons.IH [OF _ rest] s True
    show ?thesis
      by (simp add: p remove_cells_def)
  qed
qed

subsection \<open>The call on the store and the function on matrices\<close>

lemma updateDomain_loops:
  "updateDomain dm pos v =
     upd2 (remove_cells (remove_cells (remove_cells dm
              (map (\<lambda>j. (row pos, j)) [0..<length (dm ! row pos)]) v)
              (map (\<lambda>i. (i, col pos)) [0..<length dm]) v)
              (List.product [(row pos div 3) * 3..<(row pos div 3) * 3 + 3]
                 [(col pos div 3) * 3..<(col pos div 3) * 3 + 3]) v)
       (row pos) (col pos) []"
  by (simp add: updateDomain_def Let_def row_loop_cells col_loop_cells block_loop_cells2)

lemma row_cells_in_matrix:
  "r < length m \<Longrightarrow> list_all (in_matrix m) (map (\<lambda>j. (r, j)) [0..<length (m ! r)])"
  by (simp add: list_all_iff in_matrix_def)

lemma updateDomain_store_spec:
  assumes "matrix_at h d" "updateDomain_store d pos v h = (res, h')"
  shows "frame h h' \<and> (res \<noteq> None) = can_update (read_matrix h d) pos \<and>
         (\<forall>nd. res = Some nd \<longrightarrow>
            matrix_at h' nd \<and> read_matrix h' nd = updateDomain (read_matrix h d) pos v)"
proof -
  define m where "m = read_matrix h d"
  define r where "r = row pos"
  define c where "c = col pos"
  define rowcells where "rowcells = map (\<lambda>j. (r, j)) [0..<length (m ! r)]"
  define colcells where "colcells = map (\<lambda>i. (i, c)) [0..<length m]"
  define blockcells where
    "blockcells = List.product [(r div 3) * 3..<(r div 3) * 3 + 3] [(c div 3) * 3..<(c div 3) * 3 + 3]"
  have can: "can_update m pos =
             (r < length m \<and> list_all (in_matrix m) colcells \<and> list_all (in_matrix m) blockcells)"
    by (simp add: can_update_def r_def c_def colcells_def blockcells_def)
  obtain nd h0 where cp: "copy_matrix d h = (nd, h0)"
    by (cases "copy_matrix d h")
  from copy_matrix_spec [OF assms(1) cp]
  have o0: "own h h0 nd" and m0: "read_matrix h0 nd = m"
    by (simp_all add: m_def)
  have len0: "length (mats h0 ! nd) = length m"
    using m0 by (simp add: read_matrix_def [symmetric] flip: read_matrix_length)
  show ?thesis
  proof (cases "r < length m")
    case False
    with assms(2) cp len0 have "res = None" "h' = h0"
      by (simp_all add: updateDomain_store_def Let_def r_def)
    with False o0 can show ?thesis
      by (simp add: own_frame m_def)
  next
    case r: True
    define ra where "ra = mats h0 ! nd ! r"
    have rowlen: "length (rows h0 ! ra) = length (m ! r)"
      using r len0 m0 read_matrix_nth [of r h0 nd] by (simp add: ra_def)
    obtain b1 h1 where l1: "strike_all nd v rowcells h0 = (b1, h1)"
      by (cases "strike_all nd v rowcells h0")
    from strike_all_spec [OF o0 l1] row_cells_in_matrix [OF r]
    have s1: "own h h1 nd" "mats h1 = mats h0" "b1"
      "read_matrix h1 nd = remove_cells m rowcells v"
      by (simp_all add: m0 rowcells_def)
    obtain b2 h2 where l2: "strike_all nd v colcells h1 = (b2, h2)"
      by (cases "strike_all nd v colcells h1")
    from strike_all_spec [OF s1(1) l2]
    have s2: "own h h2 nd" "mats h2 = mats h0" "b2 = list_all (in_matrix m) colcells"
      "b2 \<Longrightarrow> read_matrix h2 nd = remove_cells (remove_cells m rowcells v) colcells v"
      by (simp_all add: s1)
    obtain b3 h3 where l3: "strike_all nd v blockcells h2 = (b3, h3)"
      by (cases "strike_all nd v blockcells h2")
    note run = assms(2) [unfolded updateDomain_store_def Let_def cp prod.case]
    have run1: "(case strike_all nd v colcells h1 of
                   (False, h2) \<Rightarrow> (None, h2)
                 | (True, h2) \<Rightarrow>
                     (case strike_all nd v blockcells h2 of
                        (False, h3) \<Rightarrow> (None, h3)
                      | (True, h3) \<Rightarrow>
                          (case new_cell [] h3 of (a, h4) \<Rightarrow> (Some nd, assign ra c a h4))))
                = (res, h')"
      using run r len0 l1 s1(2,3) rowlen
      unfolding r_def c_def ra_def rowcells_def colcells_def blockcells_def
      by simp
    show ?thesis
    proof (cases b2)
      case False
      with run1 l2 have "res = None" "h' = h2" by simp_all
      with False s2 can show ?thesis
        by (simp add: own_frame m_def)
    next
      case b2: True
      note m2 = s2(4) [OF b2]
      from strike_all_spec [OF s2(1) l3]
      have s3: "own h h3 nd" "mats h3 = mats h0" "b3 = list_all (in_matrix m) blockcells"
        "b3 \<Longrightarrow> read_matrix h3 nd
                = remove_cells (remove_cells (remove_cells m rowcells v) colcells v) blockcells v"
        by (simp_all add: s2 m2)
      show ?thesis
      proof (cases b3)
        case False
        with run1 l2 l3 b2 have "res = None" "h' = h3" by simp_all
        with False s3 can show ?thesis
          by (simp add: own_frame m_def)
      next
        case b3: True
        note m3 = s3(4) [OF b3]
        obtain a h4 where nc: "new_cell [] h3 = (a, h4)"
          by (cases "new_cell [] h3")
        from run1 l2 l3 b2 b3 nc have res: "res = Some nd" "h' = assign ra c a h4"
          by simp_all
        from new_cell_own [OF s3(1) nc]
        have n: "own h h4 nd" "read_matrix h4 nd = read_matrix h3 nd" "a < length (cells h4)"
          "cells h4 ! a = []" "rows h4 = rows h3" "mats h4 = mats h3"
          by simp_all
        have ra4: "ra = mats h4 ! nd ! r"
          by (simp add: ra_def n s3)
        have "in_matrix m (r, c)"
          using s2(3) b2 r by (simp add: colcells_def list_all_iff)
        then have "c < length (m ! r)"
          by (simp add: in_matrix_def)
        moreover have "length (read_matrix h4 nd ! r) = length (rows h4 ! ra)"
          using r len0 by (simp add: read_matrix_nth n s3 ra_def)
        ultimately have cl: "c < length (rows h4 ! (mats h4 ! nd ! r))"
          by (simp add: n m3 ra4)
        have rl: "r < length (mats h4 ! nd)"
          using r len0 by (simp add: n s3)
        from assign_own [OF n(1) rl cl n(3)]
        have fin: "own h h' nd"
          "read_matrix h' nd
             = upd2 (remove_cells (remove_cells (remove_cells m rowcells v) colcells v)
                       blockcells v) r c []"
          by (simp_all add: res ra4 n m3)
        have "read_matrix h' nd = updateDomain m pos v"
          unfolding fin(2) updateDomain_loops
          by (simp add: rowcells_def colcells_def blockcells_def r_def c_def)
        with fin(1) res can r b2 b3 s2(3) s3(3) show ?thesis
          by (simp add: own_frame own_matrix_at m_def)
      qed
    qed
  qed
qed

subsection \<open>The claim\<close>

text \<open>
  C5. \<open>updateDomain\<close> on the store, at a well-formed matrix: every array that the store
  had before the call is an array of the store after it, with the same elements, so the
  input matrix reads as before, whether the call returns or throws. A second call with the
  same arguments throws exactly when the first does, it keeps the arrays as well, and the
  matrices the two calls return read the same: both are what the function \<open>updateDomain\<close>
  on matrices gives for the input matrix. The call throws exactly when it reads a cell
  outside the matrix.
\<close>

theorem updateDomain_keeps_input:
  assumes "matrix_at h d"
    and "updateDomain_store d pos v h = (res, h')"
    and "updateDomain_store d pos v h' = (res2, h'')"
  shows "frame h h' \<and> read_matrix h' d = read_matrix h d \<and>
         frame h' h'' \<and> read_matrix h'' d = read_matrix h d \<and>
         (res \<noteq> None) = can_update (read_matrix h d) pos \<and>
         (res2 = None) = (res = None) \<and>
         (\<forall>nd nd2. res = Some nd \<and> res2 = Some nd2 \<longrightarrow>
            read_matrix h' nd = updateDomain (read_matrix h d) pos v \<and>
            read_matrix h'' nd2 = read_matrix h' nd \<and>
            read_matrix h'' nd = read_matrix h' nd)"
proof -
  note first = updateDomain_store_spec [OF assms(1,2)]
  from first have f1: "frame h h'" by simp
  have d1: "matrix_at h' d"
    using f1 assms(1) by (rule matrix_at_frame)
  have r1: "read_matrix h' d = read_matrix h d"
    using f1 assms(1) by (rule read_matrix_frame)
  note second = updateDomain_store_spec [OF d1 assms(3)]
  from second have f2: "frame h' h''" by simp
  have r2: "read_matrix h'' d = read_matrix h d"
    using read_matrix_frame [OF f2 d1] r1 by simp
  have "(res \<noteq> None) = can_update (read_matrix h d) pos"
    "(res2 \<noteq> None) = can_update (read_matrix h d) pos"
    using first second r1 by simp_all
  then have same: "(res2 = None) = (res = None)"
    by blast
  have out: "read_matrix h' nd = updateDomain (read_matrix h d) pos v \<and>
             read_matrix h'' nd2 = read_matrix h' nd \<and>
             read_matrix h'' nd = read_matrix h' nd"
    if "res = Some nd" "res2 = Some nd2" for nd nd2
  proof -
    from first that(1) have a: "matrix_at h' nd"
      "read_matrix h' nd = updateDomain (read_matrix h d) pos v"
      by simp_all
    from second that(2) have b: "read_matrix h'' nd2 = updateDomain (read_matrix h' d) pos v"
      by simp
    from a b r1 read_matrix_frame [OF f2 a(1)] show ?thesis by simp
  qed
  from first f1 r1 f2 r2 same out show ?thesis by blast
qed

text \<open>
  Two calls on a store with one 6x6 matrix, for the value 2 at the cell (1, 1): the input
  matrix at the address 0 keeps its cells, the two new matrices at the addresses 1 and 2
  read the same. And a call on a store with the 9x9 matrix of all candidates, for the value
  5 at the cell (4, 4): it returns a matrix, which reads as the function \<open>updateDomain\<close>
  gives it, and the input matrix reads as before.
\<close>

theorem updateDomain_keeps_input_witness:
  "matrix_at sixStore 0 \<and>
   fst (updateDomain_store 0 \<lparr>row = 1, col = 1\<rparr> 2 sixStore) = Some 1 \<and>
   fst (updateDomain_store 0 \<lparr>row = 1, col = 1\<rparr> 2 sixAfter) = Some 2 \<and>
   read_matrix sixAfter 0 = read_matrix sixStore 0 \<and>
   read_matrix sixAfter 0 ! 1 ! 4 = [1, 2, 3] \<and>
   read_matrix sixAfter 1 ! 1 ! 4 = [1, 3] \<and>
   read_matrix sixAfter 1 ! 1 ! 1 = [] \<and>
   read_matrix sixAfter 1 ! 4 ! 4 = [1, 2, 3] \<and>
   read_matrix (snd (updateDomain_store 0 \<lparr>row = 1, col = 1\<rparr> 2 sixAfter)) 2
     = read_matrix sixAfter 1 \<and>
   read_matrix (snd (updateDomain_store 0 \<lparr>row = 1, col = 1\<rparr> 2 sixAfter)) 0
     = read_matrix sixStore 0 \<and>
   matrix_at nineStore 0 \<and> read_matrix nineStore 0 = allDomains \<and>
   can_update allDomains \<lparr>row = 4, col = 4\<rparr> \<and>
   read_matrix nineAfter 0 = allDomains \<and>
   (\<exists>nd. fst (updateDomain_store 0 \<lparr>row = 4, col = 4\<rparr> 5 nineStore) = Some nd \<and>
      read_matrix nineAfter nd = updateDomain allDomains \<lparr>row = 4, col = 4\<rparr> 5)"
proof -
  have w: "matrix_at sixStore 0" by code_simp
  have r1: "fst (updateDomain_store 0 \<lparr>row = 1, col = 1\<rparr> 2 sixStore) = Some 1"
    by code_simp
  have r2: "fst (updateDomain_store 0 \<lparr>row = 1, col = 1\<rparr> 2 sixAfter) = Some 2"
    unfolding sixAfter_def by code_simp
  have c0: "read_matrix sixStore 0 ! 1 ! 4 = [1, 2, 3]" by code_simp
  have c1: "read_matrix sixAfter 1 ! 1 ! 4 = [1, 3]"
    unfolding sixAfter_def by code_simp
  have c2: "read_matrix sixAfter 1 ! 1 ! 1 = []"
    unfolding sixAfter_def by code_simp
  have c3: "read_matrix sixAfter 1 ! 4 ! 4 = [1, 2, 3]"
    unfolding sixAfter_def by code_simp
  have run1: "updateDomain_store 0 \<lparr>row = 1, col = 1\<rparr> 2 sixStore = (Some 1, sixAfter)"
    using r1 by (simp add: sixAfter_def prod_eq_iff)
  have run2: "updateDomain_store 0 \<lparr>row = 1, col = 1\<rparr> 2 sixAfter
              = (Some 2, snd (updateDomain_store 0 \<lparr>row = 1, col = 1\<rparr> 2 sixAfter))"
    using r2 by (simp add: prod_eq_iff)
  note six = updateDomain_keeps_input [OF w run1 run2]
  have w9: "matrix_at nineStore 0" by code_simp
  have m9: "read_matrix nineStore 0 = allDomains" by code_simp
  have u9: "can_update allDomains \<lparr>row = 4, col = 4\<rparr>" by code_simp
  have run3: "updateDomain_store 0 \<lparr>row = 4, col = 4\<rparr> 5 nineStore
              = (fst (updateDomain_store 0 \<lparr>row = 4, col = 4\<rparr> 5 nineStore), nineAfter)"
    by (simp add: nineAfter_def)
  have run4: "updateDomain_store 0 \<lparr>row = 4, col = 4\<rparr> 5 nineAfter
              = (fst (updateDomain_store 0 \<lparr>row = 4, col = 4\<rparr> 5 nineAfter),
                 snd (updateDomain_store 0 \<lparr>row = 4, col = 4\<rparr> 5 nineAfter))"
    by simp
  note nine = updateDomain_keeps_input [OF w9 run3 run4]
  from nine u9 obtain nd nd2
    where nd: "fst (updateDomain_store 0 \<lparr>row = 4, col = 4\<rparr> 5 nineStore) = Some nd"
      "fst (updateDomain_store 0 \<lparr>row = 4, col = 4\<rparr> 5 nineAfter) = Some nd2"
    unfolding m9 by fastforce
  with nine have "read_matrix nineAfter nd = updateDomain allDomains \<lparr>row = 4, col = 4\<rparr> 5"
    unfolding m9 by blast
  with nd(1) have ex: "\<exists>nd. fst (updateDomain_store 0 \<lparr>row = 4, col = 4\<rparr> 5 nineStore) = Some nd \<and>
      read_matrix nineAfter nd = updateDomain allDomains \<lparr>row = 4, col = 4\<rparr> 5"
    by blast
  from nine have keep: "read_matrix nineAfter 0 = allDomains"
    unfolding m9 by blast
  from six w r1 r2 c0 c1 c2 c3 w9 m9 u9 keep ex
  show ?thesis by simp
qed

end
